theory Spec2Isabelle
  imports
    Main
    "HOL-Library.Multiset"
    "HOL-Library.Char_ord"
    "HOL-Library.List_Lexorder"
    "HOL-Library.Product_Lexorder"
begin

section \<open>The parallel fetch: \<^verbatim>\<open>GH._parallel\<close> of \<^verbatim>\<open>src/tasks/helper.py\<close>\<close>

subsection \<open>Iterators and the mapping function\<close>

text \<open>
  The mapping function has the type \<^verbatim>\<open>Callable[[_T], Iterator[_V]]\<close>. What it returns is an
  iterator that has not been run yet: asked for its next item it yields one and goes on
  (\<open>Yield\<close>), ends (\<open>StopIteration\<close>) or raises (\<open>Raise\<close>). A call of the mapping function
  may itself raise before it returns an iterator, so the outcome of a call is a value of
  \<open>'e + ('e, 'v) iterator\<close>, with \<open>Inl\<close> the exception. A generator function such as
  \<^verbatim>\<open>_get_pulls\<close> never raises at the call: its body runs only when the iterator is consumed.
\<close>

datatype ('e, 'v) iterator =
    StopIteration
  | Yield 'v "('e, 'v) iterator"
  | Raise 'e

type_synonym ('e, 'v) future = "'e + ('e, 'v) iterator"

text \<open>
  \<^verbatim>\<open>result.extend(data)\<close>: the items of the iterator are appended to the list one by one.
  When the iterator raises, the items appended so far stay in the list and the exception
  goes on to the caller of \<^verbatim>\<open>extend\<close>.
\<close>

fun list_extend :: "'v list \<Rightarrow> ('e, 'v) iterator \<Rightarrow> 'v list \<times> 'e option" where
  "list_extend result StopIteration = (result, None)"
| "list_extend result (Yield v it) = list_extend (result @ [v]) it"
| "list_extend result (Raise e) = (result, Some e)"

text \<open>The items an iterator yields before it ends or raises, and the exception it ends with.\<close>

fun items :: "('e, 'v) iterator \<Rightarrow> 'v list" where
  "items StopIteration = []"
| "items (Yield v it) = v # items it"
| "items (Raise e) = []"

fun raised :: "('e, 'v) iterator \<Rightarrow> 'e option" where
  "raised StopIteration = None"
| "raised (Yield v it) = raised it"
| "raised (Raise e) = Some e"

text \<open>
  What one identifier contributes: the exception of the call or of the iteration, if there
  is one, and the items produced.
\<close>

definition failure :: "('e, 'v) future \<Rightarrow> 'e option" where
  "failure fut = (case fut of Inl e \<Rightarrow> Some e | Inr it \<Rightarrow> raised it)"

definition produced :: "('e, 'v) future \<Rightarrow> 'v list" where
  "produced fut = (case fut of Inl e \<Rightarrow> [] | Inr it \<Rightarrow> items it)"

subsection \<open>The function, with the completion order as a parameter\<close>

text \<open>
  \<^verbatim>\<open>
  def _parallel(data, func):
      result = []
      with ThreadPoolExecutor(max_workers=12) as executor:
          future_to_url = {executor.submit(func, d): d for d in data}
          for future in as_completed(future_to_url):
              data = future.result()
              result.extend(data)
      return result
  \<close>
  One future is submitted for each element of \<open>data\<close>; future \<open>i\<close> holds the outcome of
  \<open>func (data ! i)\<close>. \<^verbatim>\<open>as_completed\<close> hands every future out once, in the order in which they
  complete: \<open>order\<close> is that order, a list of the futures' indices. The loop body reads the
  future's result, which raises what the call raised, and extends \<open>result\<close> by it. An
  exception leaves the loop and the function; \<open>result\<close> is then lost with the frame.
\<close>

fun collect :: "('e, 'v) future list \<Rightarrow> nat list \<Rightarrow> 'v list \<Rightarrow> 'e + 'v list" where
  "collect futures [] result = Inr result"
| "collect futures (i # order) result =
     (case futures ! i of
        Inl e \<Rightarrow> Inl e
      | Inr it \<Rightarrow>
          (case list_extend result it of
             (result', Some e) \<Rightarrow> Inl e
           | (result', None) \<Rightarrow> collect futures order result'))"

definition parallel :: "nat list \<Rightarrow> 'a list \<Rightarrow> ('a \<Rightarrow> ('e, 'v) future) \<Rightarrow> 'e + 'v list" where
  "parallel order data func = collect (map func data) order []"

text \<open>\<^verbatim>\<open>as_completed\<close> yields each of the futures it was given exactly once.\<close>

definition completion_order :: "nat list \<Rightarrow> 'a list \<Rightarrow> bool" where
  "completion_order order data = (mset order = mset [0..<length data])"

text \<open>The example of the specification: every identifier yields two items.\<close>

definition two_items :: "string \<Rightarrow> (string, string) future" where
  "two_items x = Inr (Yield (x @ ''1'') (Yield (x @ ''2'') StopIteration))"

text \<open>A mapping function that raises at the call for one identifier.\<close>

definition fails_for :: "string \<Rightarrow> string \<Rightarrow> (string, string) future" where
  "fails_for bad x = (if x = bad then Inl (''unreachable: '' @ x) else two_items x)"

text \<open>A generator that yields one item for one identifier and raises when asked for the next.\<close>

definition breaks_for :: "string \<Rightarrow> string \<Rightarrow> (string, string) future" where
  "breaks_for bad x =
     (if x = bad then Inr (Yield (x @ ''1'') (Raise (''broken: '' @ x))) else two_items x)"

subsection \<open>The worker pool, step by step\<close>

text \<open>
  What the function does in time is a run of a transition system. Its state holds the
  part of \<open>data\<close> not yet read by the comprehension, the tasks submitted so far (each with
  its identifier and its status), the log of the calls of \<open>func\<close> the workers have begun,
  the futures \<^verbatim>\<open>as_completed\<close> has handed out so far, the list \<open>result\<close>, and the place of the
  caller: inside the \<^verbatim>\<open>with\<close> block, leaving it with a value to return or an exception to
  raise, or back in its own caller.

  A finished task holds what the call \<open>func d\<close> returned or raised. For an iterator that is
  the iterator as returned: the worker calls \<open>func\<close> and nothing else.
\<close>

datatype ('e, 'v) status =
    is_Queued: Queued
  | is_Running: Running
  | is_Finished: Finished "('e, 'v) future"

datatype ('e, 'v) caller =
    InBlock
  | Leaving "'e + 'v list"
  | Returned "'e + 'v list"

record ('a, 'e, 'v) pool =
  todo :: "'a list"
  tasks :: "('a \<times> ('e, 'v) status) list"
  calls :: "nat list"
  yielded :: "nat list"
  result :: "'v list"
  pc :: "('e, 'v) caller"

definition init :: "'a list \<Rightarrow> ('a, 'e, 'v) pool" where
  "init data = \<lparr>todo = data, tasks = [], calls = [], yielded = [], result = [], pc = InBlock\<rparr>"

text \<open>\<^verbatim>\<open>ThreadPoolExecutor(max_workers=12)\<close>: the size of the pool is this constant.\<close>

definition max_workers :: nat where
  "max_workers = 12"

definition running :: "('a, 'e, 'v) pool \<Rightarrow> nat" where
  "running s = length (filter (\<lambda>t. is_Running (snd t)) (tasks s))"

text \<open>
  The steps. The caller's are those of the source, in its order:
  \<^item> \<open>Submit\<close>: the comprehension reads the next element \<open>d\<close> of \<open>data\<close> and submits
    \<open>func d\<close>, which queues one new task;
  \<^item> \<open>Next i\<close>: once the comprehension is done, \<^verbatim>\<open>as_completed\<close> hands out a finished future
    it has not handed out before, and the loop body runs: \<^verbatim>\<open>future.result()\<close> raises what the
    call raised, else \<^verbatim>\<open>result.extend\<close> consumes the iterator, which may raise too;
  \<^item> \<open>EndLoop\<close>: every future has been handed out, the loop ends and the block is left
    with \<open>result\<close> to return;
  \<^item> \<open>Exit\<close>: the \<^verbatim>\<open>with\<close> statement shuts the executor down and waits for its workers,
    whether the block is left by an exception or not; then the function returns or raises.

  The executor's are those of the library: a worker takes a queued task when fewer than
  \<open>max_workers\<close> tasks are running (\<open>Start i\<close>: the call of \<open>func\<close> begins), and the call
  returns or raises (\<open>Finish i\<close>), which completes the future. Which enabled step comes
  next is not determined; a run is a list of steps.
\<close>

datatype action = Submit | Start nat | Finish nat | Next nat | EndLoop | Exit

fun step :: "('a \<Rightarrow> ('e, 'v) future) \<Rightarrow> action \<Rightarrow> ('a, 'e, 'v) pool \<Rightarrow> ('a, 'e, 'v) pool option" where
  "step func Submit s =
     (case todo s of
        [] \<Rightarrow> None
      | d # ds \<Rightarrow>
          if pc s = InBlock then Some (s\<lparr>todo := ds, tasks := tasks s @ [(d, Queued)]\<rparr>)
          else None)"
| "step func (Start i) s =
     (if i < length (tasks s) \<and> is_Queued (snd (tasks s ! i)) \<and> running s < max_workers
      then Some (s\<lparr>tasks := (tasks s)[i := (fst (tasks s ! i), Running)],
                    calls := calls s @ [i]\<rparr>)
      else None)"
| "step func (Finish i) s =
     (if i < length (tasks s) \<and> is_Running (snd (tasks s ! i))
      then Some (s\<lparr>tasks := (tasks s)[i := (fst (tasks s ! i),
                      Finished (func (fst (tasks s ! i))))]\<rparr>)
      else None)"
| "step func (Next i) s =
     (if pc s = InBlock \<and> todo s = [] \<and> i < length (tasks s) \<and> i \<notin> set (yielded s)
      then (case snd (tasks s ! i) of
              Finished (Inl e) \<Rightarrow> Some (s\<lparr>yielded := yielded s @ [i], pc := Leaving (Inl e)\<rparr>)
            | Finished (Inr it) \<Rightarrow>
                (case list_extend (result s) it of
                   (r, None) \<Rightarrow> Some (s\<lparr>yielded := yielded s @ [i], result := r\<rparr>)
                 | (r, Some e) \<Rightarrow>
                     Some (s\<lparr>yielded := yielded s @ [i], result := r, pc := Leaving (Inl e)\<rparr>))
            | _ \<Rightarrow> None)
      else None)"
| "step func EndLoop s =
     (if pc s = InBlock \<and> todo s = [] \<and> set [0..<length (tasks s)] \<subseteq> set (yielded s)
      then Some (s\<lparr>pc := Leaving (Inr (result s))\<rparr>)
      else None)"
| "step func Exit s =
     (case pc s of
        Leaving out \<Rightarrow>
          if list_all (\<lambda>t. is_Finished (snd t)) (tasks s) then Some (s\<lparr>pc := Returned out\<rparr>)
          else None
      | _ \<Rightarrow> None)"

fun pool_run :: "('a \<Rightarrow> ('e, 'v) future) \<Rightarrow> action list \<Rightarrow> ('a, 'e, 'v) pool \<Rightarrow> ('a, 'e, 'v) pool option" where
  "pool_run func [] s = Some s"
| "pool_run func (a # as) s = (case step func a s of None \<Rightarrow> None | Some s' \<Rightarrow> pool_run func as s')"

text \<open>Thirteen identifiers, one more than the pool has workers.\<close>

definition thirteen :: "string list" where
  "thirteen = [''a'', ''b'', ''c'', ''d'', ''e'', ''f'', ''g'', ''h'', ''i'', ''j'', ''k'', ''l'', ''m'']"

section \<open>The installer: \<^verbatim>\<open>run\<close> of \<^verbatim>\<open>src/tasks/install_uv_python.py\<close>\<close>

subsection \<open>Strings and paths\<close>

text \<open>
  \<^verbatim>\<open>str.split(sep)\<close> cuts at every separator and always returns at least one piece;
  \<^verbatim>\<open>sep.join(pieces)\<close> puts the separator between the pieces.
\<close>

fun str_split :: "char \<Rightarrow> string \<Rightarrow> string list" where
  "str_split sep [] = [[]]"
| "str_split sep (c # cs) =
     (if c = sep then [] # str_split sep cs
      else (case str_split sep cs of [] \<Rightarrow> [[c]] | w # ws \<Rightarrow> (c # w) # ws))"

fun str_join :: "string \<Rightarrow> string list \<Rightarrow> string" where
  "str_join sep [] = []"
| "str_join sep [w] = w"
| "str_join sep (w # ws) = w @ sep @ str_join sep ws"

text \<open>
  A \<^verbatim>\<open>pathlib.Path\<close> is the list of its components; \<^verbatim>\<open>Path(text)\<close> cuts the text at the
  slashes and drops empty components, and \<^verbatim>\<open>a / b\<close> appends the components of a relative
  \<open>b\<close> to those of \<open>a\<close>.
\<close>

type_synonym path = "string list"

definition Path :: "string \<Rightarrow> path" where
  "Path text = filter (\<lambda>w. w \<noteq> []) (str_split CHR ''/'' text)"

subsection \<open>External commands\<close>

text \<open>
  The two commands the installer runs, and the one the \<^verbatim>\<open>pr\<close> command of
  \<^verbatim>\<open>src/tasks/helper.py\<close> runs, with the argument lists the source gives \<^verbatim>\<open>check_call\<close>.
  An argument is a string or a path.
\<close>

datatype arg = Str string | PathArg path

datatype command = Uv_python_install string | Ln_s_f path path | Open string

fun argv :: "command \<Rightarrow> arg list" where
  "argv (Uv_python_install name) =
     [Str ''uv'', Str ''python'', Str ''install'', Str name, Str ''--no-progress'', Str ''-r'']"
| "argv (Ln_s_f target link) = [Str ''ln'', Str ''-s'', Str ''-f'', PathArg target, PathArg link]"
| "argv (Open url) = [Str ''open'', Str url]"

text \<open>
  The world the commands act on: the symbolic links (a link's path to its target) and
  the commands carried out so far. Whether a command exits with status zero, and what
  \<^verbatim>\<open>uv python install\<close> does to the links, is up to the environment. \<^verbatim>\<open>ln -s -f target link\<close>
  makes \<open>link\<close> point to \<open>target\<close>, replacing what was there (the link names of the
  installer are files in \<^verbatim>\<open>~/.local/bin\<close>, not directories).
\<close>

record world =
  links :: "path \<rightharpoonup> path"
  commands :: "command list"

record env =
  succeeds :: "command \<Rightarrow> world \<Rightarrow> bool"
  uv_effect :: "string \<Rightarrow> (path \<rightharpoonup> path) \<Rightarrow> (path \<rightharpoonup> path)"

datatype error = CalledProcessError "arg list" | KeyError string | IndexError

fun effect :: "env \<Rightarrow> command \<Rightarrow> (path \<rightharpoonup> path) \<Rightarrow> (path \<rightharpoonup> path)" where
  "effect e (Uv_python_install name) l = uv_effect e name l"
| "effect e (Ln_s_f target link) l = l(link \<mapsto> target)"
| "effect e (Open url) l = l"

text \<open>\<^verbatim>\<open>subprocess.check_call\<close> raises \<^verbatim>\<open>CalledProcessError\<close> when the exit status is not zero.\<close>

definition check_call :: "env \<Rightarrow> command \<Rightarrow> world \<Rightarrow> error + world" where
  "check_call e c w =
     (if succeeds e c w
      then Inr (w\<lparr>links := effect e c (links w), commands := commands w @ [c]\<rparr>)
      else Inl (CalledProcessError (argv c)))"

subsection \<open>The function\<close>

text \<open>
  \<^verbatim>\<open>
  py = {
      "cpython": ["3.8.20", "3.9.21", "3.10.16", "3.11.11", "3.12.9", "3.13.2"],
      "pypy": ["3.8.16", "3.9.19", "3.10.14"],
  }
  \<close>
  A dictionary keeps its keys in the order of insertion, so it is an association list.
\<close>

definition py :: "(string \<times> string list) list" where
  "py = [(''cpython'', [''3.8.20'', ''3.9.21'', ''3.10.16'', ''3.11.11'', ''3.12.9'', ''3.13.2'']),
         (''pypy'', [''3.8.16'', ''3.9.19'', ''3.10.14''])]"

definition src_dir :: "path \<Rightarrow> path" where
  "src_dir home = home @ Path ''Library/Application Support/uv/python''"

definition dest_dir :: "path \<Rightarrow> path" where
  "dest_dir home = home @ [''.local''] @ [''bin'']"

text \<open>
  The body of the inner loop, for one implementation and one version:
  \<^verbatim>\<open>
  check_call(["uv", "python", "install", f"{impl}-{version}", "--no-progress", "-r"])
  minor = ".".join(version.split(".")[:2])
  check_call(["ln", "-s", "-f",
      src / f"{impl}-{version}-macos-aarch64-none" / "bin" / "python",
      dest / f"{'python' if impl == 'cpython' else 'pypy'}{minor}"])
  \<close>
\<close>

definition minor_of :: "string \<Rightarrow> string" where
  "minor_of version = str_join ''.'' (take 2 (str_split CHR ''.'' version))"

definition interpreter :: "path \<Rightarrow> string \<Rightarrow> string \<Rightarrow> path" where
  "interpreter home impl version =
     src_dir home @ [impl @ ''-'' @ version @ ''-macos-aarch64-none''] @ [''bin''] @ [''python'']"

definition link_name :: "path \<Rightarrow> string \<Rightarrow> string \<Rightarrow> path" where
  "link_name home impl version =
     dest_dir home @ [(if impl = ''cpython'' then ''python'' else ''pypy'') @ minor_of version]"

definition install_one :: "env \<Rightarrow> path \<Rightarrow> string \<Rightarrow> string \<Rightarrow> world \<Rightarrow> error + world" where
  "install_one e home impl version w =
     (case check_call e (Uv_python_install (impl @ ''-'' @ version)) w of
        Inl err \<Rightarrow> Inl err
      | Inr w' \<Rightarrow>
          check_call e (Ln_s_f (interpreter home impl version) (link_name home impl version)) w')"

text \<open>\<^verbatim>\<open>for version in versions\<close> and \<^verbatim>\<open>for impl, versions in py.items()\<close>.\<close>

fun install_versions :: "env \<Rightarrow> path \<Rightarrow> string \<Rightarrow> string list \<Rightarrow> world \<Rightarrow> error + world" where
  "install_versions e home impl [] w = Inr w"
| "install_versions e home impl (version # versions) w =
     (case install_one e home impl version w of
        Inl err \<Rightarrow> Inl err
      | Inr w' \<Rightarrow> install_versions e home impl versions w')"

fun install_all :: "env \<Rightarrow> path \<Rightarrow> (string \<times> string list) list \<Rightarrow> world \<Rightarrow> error + world" where
  "install_all e home [] w = Inr w"
| "install_all e home ((impl, versions) # rest) w =
     (case install_versions e home impl versions w of
        Inl err \<Rightarrow> Inl err
      | Inr w' \<Rightarrow> install_all e home rest w')"

text \<open>
  After the loops, \<^verbatim>\<open>py['cpython'][-1]\<close> is looked up (a missing key or an empty list would
  raise) and the link \<^verbatim>\<open>dest / "python"\<close> is made.
\<close>

definition installer_run :: "env \<Rightarrow> path \<Rightarrow> world \<Rightarrow> error + world" where
  "installer_run e home w =
     (case install_all e home py w of
        Inl err \<Rightarrow> Inl err
      | Inr w' \<Rightarrow>
          (case map_of py ''cpython'' of
             None \<Rightarrow> Inl (KeyError ''cpython'')
           | Some [] \<Rightarrow> Inl IndexError
           | Some (v # vs) \<Rightarrow>
               check_call e
                 (Ln_s_f (interpreter home ''cpython'' (last (v # vs))) (dest_dir home @ [''python'']))
                 w'))"

text \<open>
  To say which version is the newest: a version read as the list of its numbers, compared
  number by number. This reading is not in the source, which only takes the last entry.
\<close>

definition digit_value :: "char \<Rightarrow> nat" where
  "digit_value c = of_char c - of_char CHR ''0''"

definition number_of :: "string \<Rightarrow> nat" where
  "number_of ds = foldl (\<lambda>n c. 10 * n + digit_value c) 0 ds"

definition version_numbers :: "string \<Rightarrow> nat list" where
  "version_numbers version = map number_of (str_split CHR ''.'' version)"

text \<open>An environment in which every command succeeds and \<^verbatim>\<open>uv\<close> leaves the links alone.\<close>

definition all_fine :: env where
  "all_fine = \<lparr>succeeds = (\<lambda>c w. True), uv_effect = (\<lambda>name l. l)\<rparr>"

definition empty_world :: world where
  "empty_world = \<lparr>links = Map.empty, commands = []\<rparr>"

section \<open>The \<^verbatim>\<open>pr\<close> command: \<^verbatim>\<open>GH.open_prs\<close> and \<^verbatim>\<open>OpenPRs.run\<close> of \<^verbatim>\<open>src/tasks/helper.py\<close>\<close>

subsection \<open>Repositories, pull requests and the API\<close>

text \<open>
  Of a repository the program reads \<^verbatim>\<open>owner.login\<close> and \<^verbatim>\<open>name\<close>, which together identify it;
  of a pull request it reads \<^verbatim>\<open>updated_at\<close> (always through \<^verbatim>\<open>isoformat()\<close>, so the field holds
  that text), \<^verbatim>\<open>html_url\<close> and \<^verbatim>\<open>title\<close>. Strings are compared as Python compares them,
  character by character.
\<close>

record repository =
  owner_login :: string
  repo_name :: string

record pull_request =
  updated_at :: string
  html_url :: string
  title :: string

text \<open>
  The two requests the program makes: \<^verbatim>\<open>get_repo(name)\<close>, which returns a repository or
  raises, and \<^verbatim>\<open>repo.get_pulls()\<close>, a paginated list that is read lazily and may raise on
  the way. The same repository gives the same pull requests.
\<close>

record 'e api =
  get_repo :: "string \<Rightarrow> 'e + repository"
  get_pulls :: "repository \<Rightarrow> ('e, pull_request) iterator"

text \<open>
  The nested generator function \<^verbatim>\<open>_get_pulls\<close>:
  \<^verbatim>\<open>
  def _get_pulls(name):
      repo = self.get_repo(name)
      for pr in repo.get_pulls():
          yield repo, pr
  \<close>
  Calling it returns the generator at once; the body, \<^verbatim>\<open>get_repo\<close> included, runs when the
  generator is consumed.
\<close>

fun paired :: "repository \<Rightarrow> ('e, pull_request) iterator \<Rightarrow> ('e, repository \<times> pull_request) iterator" where
  "paired repo StopIteration = StopIteration"
| "paired repo (Yield pr it) = Yield (repo, pr) (paired repo it)"
| "paired repo (Raise err) = Raise err"

definition get_pulls_for :: "'e api \<Rightarrow> string \<Rightarrow> ('e, repository \<times> pull_request) future" where
  "get_pulls_for a name =
     Inr (case get_repo a name of
            Inl err \<Rightarrow> Raise err
          | Inr repo \<Rightarrow> paired repo (get_pulls a repo))"

text \<open>\<^verbatim>\<open>open_prs\<close>: \<^verbatim>\<open>return self._parallel(self.repo_names, _get_pulls)\<close>.\<close>

definition open_prs :: "nat list \<Rightarrow> 'e api \<Rightarrow> string list \<Rightarrow> 'e + (repository \<times> pull_request) list" where
  "open_prs order a repo_names = parallel order repo_names (get_pulls_for a)"

subsection \<open>Library functions\<close>

text \<open>
  \<^verbatim>\<open>os.path.commonprefix(m)\<close> returns the empty string for an empty list; otherwise it takes
  the least and the greatest string of the list and walks along the least one,
  \<^verbatim>\<open>
  for i, c in enumerate(s1):
      if c != s2[i]:
          return s1[:i]
  return s1
  \<close>
  where \<^verbatim>\<open>s2[i]\<close> raises when \<open>s2\<close> is too short.
\<close>

fun common_walk :: "string \<Rightarrow> string \<Rightarrow> error + string" where
  "common_walk [] s2 = Inr []"
| "common_walk (c # s1) [] = Inl IndexError"
| "common_walk (c # s1) (c' # s2) =
     (if c \<noteq> c' then Inr []
      else (case common_walk s1 s2 of Inl err \<Rightarrow> Inl err | Inr p \<Rightarrow> Inr (c # p)))"

definition commonprefix :: "string list \<Rightarrow> error + string" where
  "commonprefix m =
     (case m of
        [] \<Rightarrow> Inr []
      | x # xs \<Rightarrow> common_walk (fold min xs x) (fold max xs x))"

text \<open>
  \<^verbatim>\<open>sorted(xs, key=key, reverse=True)\<close>: the list is reversed, sorted by the key with a stable
  sort, and reversed again, so the keys descend and elements with equal keys keep the
  order they had in \<open>xs\<close>.
\<close>

definition sorted_reverse :: "('a \<Rightarrow> 'k::linorder) \<Rightarrow> 'a list \<Rightarrow> 'a list" where
  "sorted_reverse key xs = rev (sort_key key (rev xs))"

text \<open>\<^verbatim>\<open>str.strip()\<close> drops the whitespace at both ends; the titles are taken to be ASCII.\<close>

definition is_space :: "char \<Rightarrow> bool" where
  "is_space c = (of_char c \<in> {9, 10, 11, 12, 13, 28, 29, 30, 31, 32 :: nat})"

definition strip :: "string \<Rightarrow> string" where
  "strip text = rev (dropWhile is_space (rev (dropWhile is_space text)))"

subsection \<open>The table and the command\<close>

datatype header = Plain string | Centered string

record table =
  table_title :: string
  columns :: "header list"
  rows :: "string list list"

text \<open>
  The sort key \<^verbatim>\<open>lambda d: (d[0].owner.login, d[0].name, d[1].updated_at.isoformat())\<close> and the
  row added for one pull request.
\<close>

definition sort_key_of :: "repository \<times> pull_request \<Rightarrow> string \<times> string \<times> string" where
  "sort_key_of d = (owner_login (fst d), repo_name (fst d), updated_at (snd d))"

definition link_markup :: "pull_request \<Rightarrow> string" where
  "link_markup pr =
     ''[link='' @ [CHR 0x22] @ html_url pr @ [CHR 0x22] @ '']'' @ strip (title pr) @ ''[/link]''"

definition row_of :: "string \<Rightarrow> repository \<times> pull_request \<Rightarrow> string list" where
  "row_of prefix d =
     [drop (length prefix) (updated_at (snd d)), owner_login (fst d), repo_name (fst d),
      link_markup (snd d)]"

text \<open>
  The loop over the sorted pull requests: with \<^verbatim>\<open>--open\<close> the page is opened first, which may
  raise; then the row is added.
\<close>

fun add_rows :: "env \<Rightarrow> bool \<Rightarrow> string \<Rightarrow> (repository \<times> pull_request) list \<Rightarrow> table \<times> world \<Rightarrow> error + table \<times> world" where
  "add_rows e opts_open prefix [] tw = Inr tw"
| "add_rows e opts_open prefix (d # ds) (t, w) =
     (case (if opts_open then check_call e (Open (html_url (snd d))) w else Inr w) of
        Inl err \<Rightarrow> Inl err
      | Inr w' \<Rightarrow> add_rows e opts_open prefix ds (t\<lparr>rows := rows t @ [row_of prefix d]\<rparr>, w'))"

text \<open>
  \<^verbatim>\<open>OpenPRs.run\<close>, given the value of \<^verbatim>\<open>github.open_prs\<close>; what it returns here is the table it
  prints.
\<close>

definition OpenPRs_run :: "env \<Rightarrow> bool \<Rightarrow> (repository \<times> pull_request) list \<Rightarrow> world \<Rightarrow> error + table \<times> world" where
  "OpenPRs_run e opts_open prs w =
     (case commonprefix (map (\<lambda>d. updated_at (snd d)) prs) of
        Inl err \<Rightarrow> Inl err
      | Inr prefix \<Rightarrow>
          add_rows e opts_open prefix (sorted_reverse sort_key_of prs)
            (\<lparr>table_title = ''Pull requests @ '' @ prefix,
              columns = [Plain ''Date'', Plain ''Org'', Plain ''Repo'', Centered ''Title''],
              rows = []\<rparr>, w))"

text \<open>An example: two repositories, the first with two pull requests updated in the same second.\<close>

definition example_api :: "string api" where
  "example_api = \<lparr>
     get_repo = (\<lambda>name.
       if name = ''tox-dev/tox'' then Inr \<lparr>owner_login = ''tox-dev'', repo_name = ''tox''\<rparr>
       else if name = ''pypa/virtualenv'' then Inr \<lparr>owner_login = ''pypa'', repo_name = ''virtualenv''\<rparr>
       else Inl (''404: '' @ name)),
     get_pulls = (\<lambda>repo.
       if repo_name repo = ''tox'' then
         Yield \<lparr>updated_at = ''2025-03-01T10:00:00+00:00'', html_url = ''https://github.com/tox-dev/tox/pull/2'', title = '' Bump deps ''\<rparr>
        (Yield \<lparr>updated_at = ''2025-03-01T10:00:00+00:00'', html_url = ''https://github.com/tox-dev/tox/pull/1'', title = ''Fix docs''\<rparr>
         StopIteration)
       else
         Yield \<lparr>updated_at = ''2025-03-02T09:30:00+00:00'', html_url = ''https://github.com/pypa/virtualenv/pull/7'', title = ''Drop 3.8''\<rparr>
         StopIteration)\<rparr>"

section \<open>Properties of the parallel fetch\<close>

lemma list_extend_eq: "list_extend res it = (res @ items it, raised it)"
  by (induction it arbitrary: res) simp_all

lemma collect_all_succeed:
  assumes "\<forall>i \<in> set order. i < length futures \<and> failure (futures ! i) = None"
  shows "collect futures order res =
    Inr (res @ concat (map (\<lambda>i. produced (futures ! i)) order))"
  using assms
proof (induction order arbitrary: res)
  case Nil
  then show ?case by simp
next
  case (Cons i order)
  from Cons.prems have ok: "failure (futures ! i) = None" by simp
  then obtain it where it: "futures ! i = Inr it" "raised it = None"
    by (cases "futures ! i") (simp_all add: failure_def)
  from Cons.prems have "\<forall>j \<in> set order. j < length futures \<and> failure (futures ! j) = None"
    by simp
  from Cons.IH [OF this] it show ?case
    by (simp add: list_extend_eq produced_def)
qed

lemma collect_first_failure:
  assumes "i \<in> set order" and "failure (futures ! i) = Some e"
    and "\<forall>j \<in> set order. j \<noteq> i \<longrightarrow> failure (futures ! j) = None"
  shows "collect futures order res = Inl e"
  using assms
proof (induction order arbitrary: res)
  case Nil
  then show ?case by simp
next
  case (Cons j order)
  show ?case
  proof (cases "j = i")
    case True
    with Cons.prems(2) show ?thesis
      by (cases "futures ! i") (simp_all add: failure_def list_extend_eq)
  next
    case False
    with Cons.prems have ok: "failure (futures ! j) = None" and mem: "i \<in> set order" by auto
    from ok obtain it where it: "futures ! j = Inr it" "raised it = None"
      by (cases "futures ! j") (simp_all add: failure_def)
    from Cons.prems have "\<forall>k \<in> set order. k \<noteq> i \<longrightarrow> failure (futures ! k) = None" by simp
    from Cons.IH [OF mem Cons.prems(2) this] it show ?thesis
      by (simp add: list_extend_eq)
  qed
qed

lemma collect_some_failure:
  assumes "i \<in> set order" and "failure (futures ! i) \<noteq> None"
  shows "\<exists>e. collect futures order res = Inl e"
  using assms
proof (induction order arbitrary: res)
  case Nil
  then show ?case by simp
next
  case (Cons j order)
  show ?case
  proof (cases "failure (futures ! j)")
    case (Some e)
    then show ?thesis
      by (cases "futures ! j") (simp_all add: failure_def list_extend_eq)
  next
    case None
    with Cons.prems have mem: "i \<in> set order" by auto
    from None obtain it where it: "futures ! j = Inr it" "raised it = None"
      by (cases "futures ! j") (simp_all add: failure_def)
    from Cons.IH [OF mem Cons.prems(2)] it show ?thesis
      by (simp add: list_extend_eq)
  qed
qed

lemma completion_order_set:
  "completion_order order data \<Longrightarrow> set order = {0..<length data}"
  unfolding completion_order_def by (metis mset_eq_setD set_upt)

lemma completion_order_perm:
  assumes "completion_order order data"
  shows "mset (map (\<lambda>i. data ! i) order) = mset data"
proof -
  from assms have "mset (map (\<lambda>i. data ! i) order) = mset (map (\<lambda>i. data ! i) [0..<length data])"
    unfolding completion_order_def by (metis mset_map)
  then show ?thesis by (simp add: map_nth)
qed

lemma mset_concat_blocks: "mset (concat xss) = sum_mset (image_mset mset (mset xss))"
  by (induction xss) simp_all

lemma concat_by_completion_order:
  assumes "completion_order order data"
  shows "mset (concat (map (\<lambda>i. f (data ! i)) order)) = mset (concat (map f data))"
    and "length (concat (map (\<lambda>i. f (data ! i)) order)) = length (concat (map f data))"
proof -
  have "mset (map (\<lambda>i. f (data ! i)) order) = image_mset (\<lambda>i. f (data ! i)) (mset order)"
    by simp
  also have "\<dots> = image_mset (\<lambda>i. f (data ! i)) (mset [0..<length data])"
    using assms by (simp only: completion_order_def)
  also have "\<dots> = mset (map (\<lambda>i. f (data ! i)) [0..<length data])"
    by simp
  also have "map (\<lambda>i. f (data ! i)) [0..<length data] = map f data"
    by (rule nth_equalityI) simp_all
  finally have blocks: "mset (map (\<lambda>i. f (data ! i)) order) = mset (map f data)" .
  have "mset (concat (map (\<lambda>i. f (data ! i)) order))
      = sum_mset (image_mset mset (mset (map (\<lambda>i. f (data ! i)) order)))"
    by (rule mset_concat_blocks)
  also have "\<dots> = sum_mset (image_mset mset (mset (map f data)))"
    by (simp only: blocks)
  also have "\<dots> = mset (concat (map f data))"
    by (rule mset_concat_blocks [symmetric])
  finally show "mset (concat (map (\<lambda>i. f (data ! i)) order)) = mset (concat (map f data))" .
  then show "length (concat (map (\<lambda>i. f (data ! i)) order)) = length (concat (map f data))"
    by (rule mset_eq_length)
qed

lemma parallel_success:
  assumes "completion_order order data"
    and "\<forall>d \<in> set data. failure (func d) = None"
  shows "parallel order data func = Inr (concat (map (\<lambda>i. produced (func (data ! i))) order))"
proof -
  have "\<forall>i \<in> set order. i < length (map func data) \<and> failure (map func data ! i) = None"
    using assms by (simp add: completion_order_set)
  from collect_all_succeed [OF this, of "[]"]
  have "parallel order data func =
      Inr (concat (map (\<lambda>i. produced (map func data ! i)) order))"
    by (simp add: parallel_def)
  moreover have "map (\<lambda>i. produced (map func data ! i)) order =
      map (\<lambda>i. produced (func (data ! i))) order"
    using assms(1) by (simp add: completion_order_set)
  ultimately show ?thesis by simp
qed

lemma parallel_failure:
  assumes "completion_order order data"
    and "i < length data" and "failure (func (data ! i)) \<noteq> None"
  shows "\<exists>e. parallel order data func = Inl e"
proof -
  from assms have "i \<in> set order" "failure (map func data ! i) \<noteq> None"
    by (simp_all add: completion_order_set)
  from collect_some_failure [OF this] show ?thesis
    by (simp add: parallel_def)
qed

lemma parallel_Inr_no_failure:
  assumes "completion_order order data" and "parallel order data func = Inr res"
  shows "\<forall>d \<in> set data. failure (func d) = None"
proof (rule ccontr)
  assume "\<not> (\<forall>d \<in> set data. failure (func d) = None)"
  then obtain i where "i < length data" "failure (func (data ! i)) \<noteq> None"
    by (auto simp: in_set_conv_nth)
  from parallel_failure [of order data i func] assms this show False by simp
qed

text \<open>
  Claim C1. When the mapping function fails for no identifier, the fetch returns a list,
  and whenever it returns a list, that list holds exactly the items the mapping function
  produces over all identifiers: its length is the sum of the numbers of items per
  identifier, and as a multiset it is the union of the per-identifier outputs. This
  holds for every order in which the futures complete.
\<close>

theorem parallel_exactly_all_items:
  assumes "completion_order order data"
  shows "((\<forall>d \<in> set data. failure (func d) = None) \<longrightarrow>
            (\<exists>res. parallel order data func = Inr res))
       \<and> (\<forall>res. parallel order data func = Inr res \<longrightarrow>
            length res = sum_list (map (\<lambda>d. length (produced (func d))) data)
          \<and> mset res = mset (concat (map (\<lambda>d. produced (func d)) data)))"
proof (intro conjI allI impI)
  assume "\<forall>d \<in> set data. failure (func d) = None"
  from parallel_success [OF assms this] show "\<exists>res. parallel order data func = Inr res"
    by blast
next
  fix res
  assume ret: "parallel order data func = Inr res"
  from parallel_Inr_no_failure [OF assms ret] parallel_success [where func = func, OF assms] ret
  have res: "res = concat (map (\<lambda>i. produced (func (data ! i))) order)"
    by simp
  show "mset res = mset (concat (map (\<lambda>d. produced (func d)) data))"
    unfolding res by (rule concat_by_completion_order(1) [OF assms])
  have "length res = length (concat (map (\<lambda>d. produced (func d)) data))"
    unfolding res by (rule concat_by_completion_order(2) [OF assms])
  then show "length res = sum_list (map (\<lambda>d. length (produced (func d))) data)"
    by (simp add: length_concat comp_def)
qed

theorem parallel_exactly_all_items_witness:
  "completion_order [2, 0, 1] [''a'', ''b'', ''c'']
   \<and> parallel [2, 0, 1] [''a'', ''b'', ''c''] two_items
       = Inr [''c1'', ''c2'', ''a1'', ''a2'', ''b1'', ''b2'']
   \<and> length [''c1'', ''c2'', ''a1'', ''a2'', ''b1'', ''b2'']
       = sum_list (map (\<lambda>d. length (produced (two_items d))) [''a'', ''b'', ''c''])
   \<and> mset [''c1'', ''c2'', ''a1'', ''a2'', ''b1'', ''b2'']
       = mset (concat (map (\<lambda>d. produced (two_items d)) [''a'', ''b'', ''c'']))"
proof -
  have order: "completion_order [2, 0, 1] [''a'', ''b'', ''c'']"
    by (simp add: completion_order_def upt_rec)
  have run: "parallel [2, 0, 1] [''a'', ''b'', ''c''] two_items
      = Inr [''c1'', ''c2'', ''a1'', ''a2'', ''b1'', ''b2'']"
    by (simp add: parallel_def two_items_def)
  from parallel_exactly_all_items [OF order, of two_items] run order show ?thesis
    by simp
qed

text \<open>
  Claim C2. When the mapping function fails for an identifier (at the call or while its
  iterator is consumed), the fetch raises, whatever the order of completion: it never
  returns the items of the identifiers that succeeded. When exactly one identifier
  fails, the exception raised is that identifier's.
\<close>

theorem parallel_surfaces_failure:
  assumes "completion_order order data"
    and "i < length data"
    and "failure (func (data ! i)) = Some e"
  shows "(\<exists>e'. parallel order data func = Inl e')
       \<and> ((\<forall>j < length data. j \<noteq> i \<longrightarrow> failure (func (data ! j)) = None) \<longrightarrow>
            parallel order data func = Inl e)"
proof (intro conjI impI)
  from assms(3) have "failure (func (data ! i)) \<noteq> None" by simp
  from parallel_failure [of order data i func] assms(1,2) this
  show "\<exists>e'. parallel order data func = Inl e'" by simp
next
  assume others: "\<forall>j < length data. j \<noteq> i \<longrightarrow> failure (func (data ! j)) = None"
  from assms(1,2) have mem: "i \<in> set order"
    by (simp add: completion_order_set)
  from assms(2,3) have bad: "failure (map func data ! i) = Some e" by simp
  from others assms(1)
  have "\<forall>j \<in> set order. j \<noteq> i \<longrightarrow> failure (map func data ! j) = None"
    by (simp add: completion_order_set)
  from collect_first_failure [OF mem bad this] show "parallel order data func = Inl e"
    by (simp add: parallel_def)
qed

theorem parallel_surfaces_failure_witness:
  "completion_order [2, 0, 1] [''a'', ''b'', ''c'']
   \<and> failure (breaks_for ''b'' ([''a'', ''b'', ''c''] ! 1)) = Some ''broken: b''
   \<and> parallel [2, 0, 1] [''a'', ''b'', ''c''] (breaks_for ''b'') = Inl ''broken: b''"
proof -
  have order: "completion_order [2, 0, 1] [''a'', ''b'', ''c'']"
    by (simp add: completion_order_def upt_rec)
  have bad: "failure (breaks_for ''b'' ([''a'', ''b'', ''c''] ! 1)) = Some ''broken: b''"
    by (simp add: failure_def breaks_for_def)
  have others: "\<forall>j < length [''a'', ''b'', ''c''::string]. j \<noteq> 1 \<longrightarrow>
      failure (breaks_for ''b'' ([''a'', ''b'', ''c''] ! j)) = None"
    by (simp add: failure_def breaks_for_def two_items_def less_Suc_eq numeral_3_eq_3)
  from parallel_surfaces_failure
      [of "[2, 0, 1]" "[''a'', ''b'', ''c'']" 1 "breaks_for ''b''" "''broken: b''"]
    others order bad
  show ?thesis by simp
qed

text \<open>
  Claim C8. When the mapping function returns the empty sequence for every identifier,
  the fetch returns the empty list.
\<close>

theorem parallel_all_empty:
  assumes "completion_order order data"
    and "\<forall>d \<in> set data. func d = Inr StopIteration"
  shows "parallel order data func = Inr []"
proof -
  from assms(2) have ok: "\<forall>d \<in> set data. failure (func d) = None"
    by (simp add: failure_def)
  have "concat (map (\<lambda>i. produced (func (data ! i))) order) = []"
    using assms by (simp add: completion_order_set produced_def)
  with parallel_success [OF assms(1) ok] show ?thesis by simp
qed

theorem parallel_all_empty_witness:
  "completion_order [1, 0] [''a'', ''b'']
   \<and> parallel [1, 0] [''a'', ''b''] (\<lambda>d. Inr StopIteration :: (unit, string) future) = Inr []"
proof -
  have order: "completion_order [1, 0] [''a'', ''b'']"
    by (simp add: completion_order_def upt_rec)
  from parallel_all_empty [OF order, of "\<lambda>d. Inr StopIteration"] order show ?thesis
    by simp
qed

section \<open>Properties of the worker pool\<close>

lemma run_induct_rule:
  assumes "pool_run func as s = Some s'" and "P s"
    and "\<And>a t t'. P t \<Longrightarrow> step func a t = Some t' \<Longrightarrow> P t'"
  shows "P s'"
  using assms(1,2)
proof (induction as arbitrary: s)
  case Nil
  then show ?case by simp
next
  case (Cons a as)
  then obtain t where t: "step func a s = Some t" "pool_run func as t = Some s'"
    by (auto split: option.splits)
  from assms(3) [OF Cons.prems(2) t(1)] have "P t" .
  from Cons.IH [OF t(2) this] show ?case .
qed

lemma map_fst_update:
  "i < length xs \<Longrightarrow> map fst (xs[i := (fst (xs ! i), y)]) = map fst xs"
  by (simp add: map_update list_update_same_conv)

lemma step_cases:
  assumes "step func a s = Some s'"
  obtains
    (Submit) d ds where "a = Submit" "todo s = d # ds" "pc s = InBlock"
      "s' = s\<lparr>todo := ds, tasks := tasks s @ [(d, Queued)]\<rparr>"
  | (Start) i where "a = Start i" "i < length (tasks s)" "is_Queued (snd (tasks s ! i))"
      "running s < max_workers"
      "s' = s\<lparr>tasks := (tasks s)[i := (fst (tasks s ! i), Running)], calls := calls s @ [i]\<rparr>"
  | (Finish) i where "a = Finish i" "i < length (tasks s)" "is_Running (snd (tasks s ! i))"
      "s' = s\<lparr>tasks := (tasks s)[i := (fst (tasks s ! i), Finished (func (fst (tasks s ! i))))]\<rparr>"
  | (Next_raise) i e where "a = Next i" "pc s = InBlock" "todo s = []" "i < length (tasks s)"
      "i \<notin> set (yielded s)" "snd (tasks s ! i) = Finished (Inl e)"
      "s' = s\<lparr>yielded := yielded s @ [i], pc := Leaving (Inl e)\<rparr>"
  | (Next_ok) i it r where "a = Next i" "pc s = InBlock" "todo s = []" "i < length (tasks s)"
      "i \<notin> set (yielded s)" "snd (tasks s ! i) = Finished (Inr it)"
      "list_extend (result s) it = (r, None)"
      "s' = s\<lparr>yielded := yielded s @ [i], result := r\<rparr>"
  | (Next_break) i it r e where "a = Next i" "pc s = InBlock" "todo s = []" "i < length (tasks s)"
      "i \<notin> set (yielded s)" "snd (tasks s ! i) = Finished (Inr it)"
      "list_extend (result s) it = (r, Some e)"
      "s' = s\<lparr>yielded := yielded s @ [i], result := r, pc := Leaving (Inl e)\<rparr>"
  | (EndLoop) "a = EndLoop" "pc s = InBlock" "todo s = []"
      "set [0..<length (tasks s)] \<subseteq> set (yielded s)"
      "s' = s\<lparr>pc := Leaving (Inr (result s))\<rparr>"
  | (Exit) out where "a = Exit" "pc s = Leaving out"
      "list_all (\<lambda>t. is_Finished (snd t)) (tasks s)" "s' = s\<lparr>pc := Returned out\<rparr>"
proof (cases a)
  case Submit
  with assms that(1) show ?thesis
    by (auto split: list.splits if_splits)
next
  case (Start i)
  with assms that(2) show ?thesis
    by (auto split: if_splits)
next
  case (Finish i)
  with assms that(3) show ?thesis
    by (auto split: if_splits)
next
  case (Next i)
  with assms have guard: "pc s = InBlock" "todo s = []" "i < length (tasks s)"
      "i \<notin> set (yielded s)"
    by (auto split: if_splits)
  show ?thesis
  proof (cases "snd (tasks s ! i)")
    case Queued
    with assms Next guard show ?thesis by simp
  next
    case Running
    with assms Next guard show ?thesis by simp
  next
    case (Finished fut)
    show ?thesis
    proof (cases fut)
      case (Inl e)
      with assms Next guard Finished that(4) [of i e] show ?thesis by simp
    next
      case (Inr it)
      obtain r x where rx: "list_extend (result s) it = (r, x)" by force
      show ?thesis
      proof (cases x)
        case None
        with assms Next guard Finished Inr rx that(5) [of i it r] show ?thesis by simp
      next
        case (Some e)
        with assms Next guard Finished Inr rx that(6) [of i it r e] show ?thesis by simp
      qed
    qed
  qed
next
  case EndLoop
  with assms that(7) show ?thesis
    by (auto split: if_splits)
next
  case Exit
  with assms that(8) show ?thesis
    by (auto split: caller.splits if_splits)
qed


lemma length_filter_update:
  "i < length xs \<Longrightarrow>
    length (filter P (xs[i := x])) + (if P (xs ! i) then 1 else 0)
      = length (filter P xs) + (if P x then 1 else 0)"
proof (induction xs arbitrary: i)
  case Nil
  then show ?case by simp
next
  case (Cons y ys)
  then show ?case by (cases i) auto
qed

lemma run_idents:
  assumes "pool_run func as (init data) = Some s"
  shows "map fst (tasks s) @ todo s = data"
proof (rule run_induct_rule [OF assms])
  show "map fst (tasks (init data)) @ todo (init data) = data"
    by (simp add: init_def)
next
  fix a and t t' :: "('a, 'b, 'c) pool"
  assume inv: "map fst (tasks t) @ todo t = data" and st: "step func a t = Some t'"
  from st inv show "map fst (tasks t') @ todo t' = data"
    by (cases rule: step_cases) (auto simp: map_fst_update)
qed

lemma run_bound:
  assumes "pool_run func as (init data) = Some s"
  shows "running s \<le> max_workers"
proof (rule run_induct_rule [OF assms])
  show "running (init data) \<le> max_workers"
    by (simp add: init_def running_def)
next
  fix a and t t' :: "('a, 'b, 'c) pool"
  assume inv: "running t \<le> max_workers" and st: "step func a t = Some t'"
  from st show "running t' \<le> max_workers"
  proof (cases rule: step_cases)
    case (Start i)
    from Start(3) have "\<not> is_Running (snd (tasks t ! i))"
      by (cases "snd (tasks t ! i)") simp_all
    with length_filter_update [OF Start(2), of "\<lambda>t. is_Running (snd t)" "(fst (tasks t ! i), Running)"]
    have "running t' = running t + 1"
      by (simp add: running_def Start(5))
    with Start(4) show ?thesis by simp
  next
    case (Finish i)
    with length_filter_update [OF Finish(2), of "\<lambda>t. is_Running (snd t)"
        "(fst (tasks t ! i), Finished (func (fst (tasks t ! i))))"]
    have "running t' + 1 = running t"
      by (simp add: running_def)
    with inv show ?thesis by simp
  qed (use inv in \<open>simp_all add: running_def\<close>)
qed


lemma run_calls:
  assumes "pool_run func as (init data) = Some s"
  shows "distinct (calls s) \<and>
    set (calls s) = {i. i < length (tasks s) \<and> \<not> is_Queued (snd (tasks s ! i))}"
proof (rule run_induct_rule [OF assms])
  show "distinct (calls (init data)) \<and> set (calls (init data)) =
      {i. i < length (tasks (init data)) \<and> \<not> is_Queued (snd (tasks (init data) ! i))}"
    by (simp add: init_def)
next
  fix a and t t' :: "('a, 'b, 'c) pool"
  assume inv: "distinct (calls t) \<and>
      set (calls t) = {i. i < length (tasks t) \<and> \<not> is_Queued (snd (tasks t ! i))}"
    and st: "step func a t = Some t'"
  from st show "distinct (calls t') \<and>
      set (calls t') = {i. i < length (tasks t') \<and> \<not> is_Queued (snd (tasks t' ! i))}"
  proof (cases rule: step_cases)
    case (Submit d ds)
    have "{i. i < length (tasks t') \<and> \<not> is_Queued (snd (tasks t' ! i))}
        = {i. i < length (tasks t) \<and> \<not> is_Queued (snd (tasks t ! i))}"
      by (auto simp: Submit(4) nth_append less_Suc_eq)
    with inv show ?thesis by (simp add: Submit(4))
  next
    case (Start i)
    from inv Start(3) have fresh: "i \<notin> set (calls t)" by simp
    have "{j. j < length (tasks t') \<and> \<not> is_Queued (snd (tasks t' ! j))}
        = insert i {j. j < length (tasks t) \<and> \<not> is_Queued (snd (tasks t ! j))}"
      using Start(2) by (auto simp: Start(5) nth_list_update)
    with inv fresh show ?thesis by (simp add: Start(5))
  next
    case (Finish i)
    from Finish(3) have "\<not> is_Queued (snd (tasks t ! i))"
      by (cases "snd (tasks t ! i)") simp_all
    then have "{j. j < length (tasks t') \<and> \<not> is_Queued (snd (tasks t' ! j))}
        = {j. j < length (tasks t) \<and> \<not> is_Queued (snd (tasks t ! j))}"
      using Finish(2) by (auto simp: Finish(4) nth_list_update)
    with inv show ?thesis by (simp add: Finish(4))
  qed (use inv in simp_all)
qed

lemma run_yielded:
  assumes "pool_run func as (init data) = Some s"
  shows "distinct (yielded s)
    \<and> (\<forall>i \<in> set (yielded s). i < length (tasks s) \<and> is_Finished (snd (tasks s ! i)))
    \<and> (yielded s \<noteq> [] \<or> pc s \<noteq> InBlock \<longrightarrow> todo s = [])"
    (is "?P s")
proof (rule run_induct_rule [OF assms])
  show "?P (init data)"
    by (simp add: init_def)
next
  fix a and t t' :: "('a, 'b, 'c) pool"
  assume inv: "?P t" and st: "step func a t = Some t'"
  from st show "?P t'"
  proof (cases rule: step_cases)
    case (Submit d ds)
    with inv show ?thesis by auto
  next
    case (Start i)
    with inv show ?thesis
      by (cases "snd (tasks t ! i)") (auto simp: nth_list_update)
  next
    case (Finish i)
    with inv show ?thesis
      by (auto simp: nth_list_update)
  qed (use inv in auto)
qed

lemma run_returned:
  assumes "pool_run func as (init data) = Some s"
  shows "pc s = Returned out \<longrightarrow> list_all (\<lambda>t. is_Finished (snd t)) (tasks s)"
    (is "?P s")
proof -
  have "\<forall>out. pc s = Returned out \<longrightarrow> list_all (\<lambda>t. is_Finished (snd t)) (tasks s)"
    (is "?Q s")
  proof (rule run_induct_rule [OF assms])
    show "?Q (init data)"
      by (simp add: init_def)
  next
    fix a and t t' :: "('a, 'b, 'c) pool"
    assume inv: "?Q t" and st: "step func a t = Some t'"
    from st show "?Q t'"
    proof (cases rule: step_cases)
      case (Start i)
      with inv show ?thesis
        by (cases "snd (tasks t ! i)") (auto simp: list_all_length nth_list_update)
    next
      case (Finish i)
      with inv show ?thesis
        by (auto simp: list_all_length nth_list_update)
    qed (use inv in auto)
  qed
  then show ?thesis by blast
qed

lemma run_finished_outcome:
  assumes "pool_run func as (init data) = Some s"
  shows "\<forall>i < length (tasks s). \<forall>fut. snd (tasks s ! i) = Finished fut \<longrightarrow> fut = func (fst (tasks s ! i))"
    (is "?P s")
proof (rule run_induct_rule [OF assms])
  show "?P (init data)"
    by (simp add: init_def)
next
  fix a and t t' :: "('a, 'b, 'c) pool"
  assume inv: "?P t" and st: "step func a t = Some t'"
  from st show "?P t'"
  proof (cases rule: step_cases)
    case (Submit d ds)
    with inv show ?thesis by (auto simp: nth_append less_Suc_eq)
  next
    case (Start i)
    with inv show ?thesis by (auto simp: nth_list_update)
  next
    case (Finish i)
    with inv show ?thesis by (auto simp: nth_list_update)
  qed (use inv in auto)
qed

text \<open>
  Claim C5. In every state a run can reach, at most \<open>max_workers = 12\<close> calls of the mapping
  function are in flight in the pool, however many identifiers there are; when twelve
  are running no further task can start. The bound is a constant of the program.
\<close>

theorem pool_never_exceeds_max_workers:
  assumes "pool_run func as (init data) = Some s"
  shows "running s \<le> max_workers \<and> max_workers = 12
       \<and> (running s = max_workers \<longrightarrow> step func (Start i) s = None)"
  using run_bound [OF assms] by (simp add: max_workers_def)

theorem pool_never_exceeds_max_workers_witness:
  "pool_run two_items (replicate 13 Submit @ map Start [0..<12]) (init thirteen) \<noteq> None
   \<and> running (the (pool_run two_items (replicate 13 Submit @ map Start [0..<12]) (init thirteen))) = 12
   \<and> step two_items (Start 12)
        (the (pool_run two_items (replicate 13 Submit @ map Start [0..<12]) (init thirteen))) = None"
proof -
  have ex: "pool_run two_items (replicate 13 Submit @ map Start [0..<12]) (init thirteen) \<noteq> None"
    by code_simp
  have twelve:
    "running (the (pool_run two_items (replicate 13 Submit @ map Start [0..<12]) (init thirteen))) = 12"
    by code_simp
  from ex have "pool_run two_items (replicate 13 Submit @ map Start [0..<12]) (init thirteen)
      = Some (the (pool_run two_items (replicate 13 Submit @ map Start [0..<12]) (init thirteen)))"
    by simp
  from pool_never_exceeds_max_workers [OF this, of 12] ex twelve show ?thesis
    by simp
qed

lemma finished_not_waiting:
  "is_Finished x \<Longrightarrow> \<not> is_Queued x" "is_Finished x \<Longrightarrow> \<not> is_Running x"
  by (cases x; simp)+

lemma distinct_set_upt_mset:
  assumes "distinct xs" and "set xs = {0..<n}"
  shows "mset xs = mset [0..<n]"
proof -
  have "set xs = set [0..<n]" using assms(2) by simp
  with assms(1) show ?thesis
    by (metis distinct_upt set_eq_iff_mset_eq_distinct)
qed

lemma run_left_block:
  assumes "pool_run func as (init data) = Some s" and "pc s \<noteq> InBlock"
  shows "todo s = []" and "map fst (tasks s) = data"
proof -
  from run_yielded [OF assms(1)] assms(2) show "todo s = []" by simp
  with run_idents [OF assms(1)] show "map fst (tasks s) = data" by simp
qed

text \<open>
  Claim C6. The comprehension reads the collection once, front to back, and submits one
  task for each element it reads, duplicates included: the identifiers of the tasks
  followed by the unread part are the collection. No task is called twice, and a
  finished task holds the outcome of the call of the mapping function on its own
  element. When the fetch has returned or raised, there is one task for each element and
  each has been called exactly once.
\<close>

theorem one_task_and_one_call_per_identifier:
  assumes "pool_run func as (init data) = Some s"
  shows "map fst (tasks s) @ todo s = data
       \<and> distinct (calls s)
       \<and> set (calls s) \<subseteq> {0..<length (tasks s)}
       \<and> (\<forall>i < length (tasks s). \<forall>fut.
            snd (tasks s ! i) = Finished fut \<longrightarrow> fut = func (data ! i))
       \<and> (\<forall>out. pc s = Returned out \<longrightarrow>
            map fst (tasks s) = data \<and> mset (calls s) = mset [0..<length data])"
proof -
  note idents = run_idents [OF assms]
  note called = run_calls [OF assms]
  from called have c1: "distinct (calls s)" by (rule conjunct1)
  from called have cs: "set (calls s) = {i. i < length (tasks s) \<and> \<not> is_Queued (snd (tasks s ! i))}"
    by (rule conjunct2)
  have c2: "set (calls s) \<subseteq> {0..<length (tasks s)}"
    unfolding cs by (simp add: subset_iff)
  have c3: "\<forall>i < length (tasks s). \<forall>fut.
      snd (tasks s ! i) = Finished fut \<longrightarrow> fut = func (data ! i)"
  proof (intro allI impI)
    fix i fut
    assume i: "i < length (tasks s)" and fin: "snd (tasks s ! i) = Finished fut"
    from i have "(map fst (tasks s) @ todo s) ! i = fst (tasks s ! i)"
      by (simp add: nth_append)
    then have "data ! i = fst (tasks s ! i)" by (simp only: idents)
    moreover from run_finished_outcome [OF assms] i fin have "fut = func (fst (tasks s ! i))"
      by blast
    ultimately show "fut = func (data ! i)" by simp
  qed
  have c4: "\<forall>out. pc s = Returned out \<longrightarrow>
      map fst (tasks s) = data \<and> mset (calls s) = mset [0..<length data]"
  proof (intro allI impI)
    fix out
    assume ret: "pc s = Returned out"
    then have "pc s \<noteq> InBlock" by simp
    from run_left_block(2) [OF assms this] have all: "map fst (tasks s) = data" .
    have len: "length (tasks s) = length data"
      unfolding all [symmetric] by simp
    from run_returned [OF assms, of out] ret
    have "\<forall>i < length (tasks s). \<not> is_Queued (snd (tasks s ! i))"
      by (simp add: list_all_length finished_not_waiting)
    then have "{i. i < length (tasks s) \<and> \<not> is_Queued (snd (tasks s ! i))} = {0..<length (tasks s)}"
      by auto
    then have "set (calls s) = {0..<length (tasks s)}" by (simp only: cs)
    then have "set (calls s) = {0..<length data}" by (simp only: len)
    with c1 have "mset (calls s) = mset [0..<length data]"
      by (rule distinct_set_upt_mset)
    with all show "map fst (tasks s) = data \<and> mset (calls s) = mset [0..<length data]"
      by (rule conjI)
  qed
  from idents c1 c2 c3 c4 show ?thesis by (intro conjI)
qed

theorem one_task_and_one_call_per_identifier_witness:
  "pool_run two_items [Submit, Submit, Start 1, Start 0, Finish 0, Finish 1, Next 0, Next 1, EndLoop, Exit]
      (init [''a'', ''a''])
    = Some \<lparr>todo = [],
        tasks = [(''a'', Finished (two_items ''a'')), (''a'', Finished (two_items ''a''))],
        calls = [1, 0], yielded = [0, 1], result = [''a1'', ''a2'', ''a1'', ''a2''],
        pc = Returned (Inr [''a1'', ''a2'', ''a1'', ''a2''])\<rparr>
   \<and> mset [1, 0] = mset [0..<length [''a'', ''a'']]"
proof -
  have r: "pool_run two_items
      [Submit, Submit, Start 1, Start 0, Finish 0, Finish 1, Next 0, Next 1, EndLoop, Exit]
      (init [''a'', ''a''])
    = Some \<lparr>todo = [],
        tasks = [(''a'', Finished (two_items ''a'')), (''a'', Finished (two_items ''a''))],
        calls = [1, 0], yielded = [0, 1], result = [''a1'', ''a2'', ''a1'', ''a2''],
        pc = Returned (Inr [''a1'', ''a2'', ''a1'', ''a2''])\<rparr>"
    by (simp add: init_def running_def max_workers_def two_items_def)
  from one_task_and_one_call_per_identifier [OF r] r show ?thesis
    by simp
qed

text \<open>
  Claim C7. The fetch returns or raises only when every element of the collection has
  been submitted and every submitted task has finished: in a state in which the caller
  has got its value or its exception, no task is queued or running. This holds when the
  block is left by an exception as well.
\<close>

theorem returns_only_after_all_tasks_finished:
  assumes "pool_run func as (init data) = Some s" and "pc s = Returned out"
  shows "map fst (tasks s) = data
       \<and> list_all (\<lambda>t. is_Finished (snd t)) (tasks s)
       \<and> running s = 0"
proof -
  from assms(2) have "pc s \<noteq> InBlock" by simp
  from run_left_block(2) [OF assms(1) this] have all: "map fst (tasks s) = data" .
  from run_returned [OF assms(1), of out] assms(2)
  have fin: "list_all (\<lambda>t. is_Finished (snd t)) (tasks s)" by simp
  then have "filter (\<lambda>t. is_Running (snd t)) (tasks s) = []"
    by (simp add: list_all_iff filter_empty_conv finished_not_waiting)
  then have "running s = 0" by (simp add: running_def)
  with all fin show ?thesis by simp
qed

theorem returns_only_after_all_tasks_finished_witness:
  "pool_run (fails_for ''b'') [Submit, Submit, Start 1, Finish 1, Next 1, Exit] (init [''a'', ''b''])
     = None
   \<and> pool_run (fails_for ''b'') [Submit, Submit, Start 1, Finish 1, Next 1, Start 0, Finish 0, Exit]
       (init [''a'', ''b''])
     = Some \<lparr>todo = [],
         tasks = [(''a'', Finished (two_items ''a'')), (''b'', Finished (Inl ''unreachable: b''))],
         calls = [1, 0], yielded = [1], result = [],
         pc = Returned (Inl ''unreachable: b'')\<rparr>"
proof -
  have blocked: "pool_run (fails_for ''b'') [Submit, Submit, Start 1, Finish 1, Next 1, Exit]
      (init [''a'', ''b'']) = None"
    by (simp add: init_def running_def max_workers_def two_items_def fails_for_def)
  have r: "pool_run (fails_for ''b'')
      [Submit, Submit, Start 1, Finish 1, Next 1, Start 0, Finish 0, Exit] (init [''a'', ''b''])
    = Some \<lparr>todo = [],
        tasks = [(''a'', Finished (two_items ''a'')), (''b'', Finished (Inl ''unreachable: b''))],
        calls = [1, 0], yielded = [1], result = [],
        pc = Returned (Inl ''unreachable: b'')\<rparr>"
    by (simp add: init_def running_def max_workers_def two_items_def fails_for_def)
  from returns_only_after_all_tasks_finished [OF r] blocked r show ?thesis
    by simp
qed

text \<open>
  Claim C3, evaluated on the code. The mapping function returns an iterator that yields
  one item and raises when asked for the next, as a generator does whose second request
  fails. The worker's call returns that iterator untouched and the task is finished:
  nothing has been produced, \<open>result\<close> is empty and no exception has been seen. The item
  is produced, and the exception raised, in the caller's loop body, by
  \<^verbatim>\<open>result.extend(data)\<close>.
\<close>

theorem iterator_consumed_by_caller_not_worker:
  "pool_run (breaks_for ''a'') [Submit, Start 0, Finish 0] (init [''a''])
     = Some \<lparr>todo = [],
         tasks = [(''a'', Finished (Inr (Yield ''a1'' (Raise ''broken: a''))))],
         calls = [0], yielded = [], result = [], pc = InBlock\<rparr>
   \<and> pool_run (breaks_for ''a'') [Submit, Start 0, Finish 0, Next 0] (init [''a''])
     = Some \<lparr>todo = [],
         tasks = [(''a'', Finished (Inr (Yield ''a1'' (Raise ''broken: a''))))],
         calls = [0], yielded = [0], result = [''a1''], pc = Leaving (Inl ''broken: a'')\<rparr>"
  by (simp add: init_def running_def max_workers_def breaks_for_def)

section \<open>The worker pool and the function agree\<close>

text \<open>
  What a run of the worker pool returns or raises is what the function of the first
  section computes for some completion order, and every completion order is that of a
  run.
\<close>

lemma pool_run_append:
  "pool_run func (as @ bs) s =
    (case pool_run func as s of None \<Rightarrow> None | Some t \<Rightarrow> pool_run func bs t)"
  by (induction as arbitrary: s) (simp_all split: option.splits)

lemma run_reachable_induct:
  assumes "pool_run func as s0 = Some s" and "P s0"
    and "\<And>bs a t t'. pool_run func bs s0 = Some t \<Longrightarrow> P t \<Longrightarrow> step func a t = Some t' \<Longrightarrow> P t'"
  shows "P s"
  using assms(1)
proof (induction as arbitrary: s rule: rev_induct)
  case Nil
  with assms(2) show ?case by simp
next
  case (snoc a as)
  from snoc.prems obtain t where t: "pool_run func as s0 = Some t" and st: "step func a t = Some s"
    by (auto simp: pool_run_append split: option.splits)
  from assms(3) [OF t snoc.IH [OF t] st] show ?case .
qed

lemma list_extend_None:
  assumes "list_extend res it = (r, None)"
  shows "raised it = None" and "r = res @ items it"
  using assms by (simp_all add: list_extend_eq)

lemma list_extend_Some:
  assumes "list_extend res it = (r, Some e)"
  shows "raised it = Some e"
  using assms by (simp add: list_extend_eq)

lemma run_task_outcome:
  assumes "pool_run func as (init data) = Some s"
    and "i < length (tasks s)" and "snd (tasks s ! i) = Finished fut"
  shows "func (data ! i) = fut"
proof -
  from assms(2) have "(map fst (tasks s) @ todo s) ! i = fst (tasks s ! i)"
    by (simp add: nth_append)
  then have "data ! i = fst (tasks s ! i)"
    by (simp only: run_idents [OF assms(1)])
  moreover from run_finished_outcome [OF assms(1)] assms(2,3) have "fut = func (fst (tasks s ! i))"
    by blast
  ultimately show ?thesis by simp
qed


lemma run_collected:
  assumes "pool_run func as (init data) = Some s"
  shows "(pc s = InBlock \<longrightarrow>
            (\<forall>i \<in> set (yielded s). failure (func (data ! i)) = None)
          \<and> result s = concat (map (\<lambda>i. produced (func (data ! i))) (yielded s)))
       \<and> (\<forall>r. pc s = Leaving (Inr r) \<or> pc s = Returned (Inr r) \<longrightarrow>
            (\<forall>i \<in> set (yielded s). failure (func (data ! i)) = None)
          \<and> r = concat (map (\<lambda>i. produced (func (data ! i))) (yielded s))
          \<and> set [0..<length (tasks s)] \<subseteq> set (yielded s))
       \<and> (\<forall>e. pc s = Leaving (Inl e) \<or> pc s = Returned (Inl e) \<longrightarrow>
            yielded s \<noteq> []
          \<and> (\<forall>i \<in> set (butlast (yielded s)). failure (func (data ! i)) = None)
          \<and> failure (func (data ! last (yielded s))) = Some e)"
    (is "?J s")
proof (rule run_reachable_induct [OF assms])
  show "?J (init data)"
    by (simp add: init_def)
next
  fix bs a and t t' :: "('a, 'b, 'c) pool"
  assume reach: "pool_run func bs (init data) = Some t"
    and inv: "?J t" and st: "step func a t = Some t'"
  from st show "?J t'"
  proof (cases rule: step_cases)
    case (Submit d ds)
    with inv show ?thesis by simp
  next
    case (Start i)
    with inv show ?thesis by simp
  next
    case (Finish i)
    with inv show ?thesis by simp
  next
    case (Next_raise i e)
    from run_task_outcome [OF reach Next_raise(4,6)] have "failure (func (data ! i)) = Some e"
      by (simp add: failure_def)
    with inv Next_raise show ?thesis by simp
  next
    case (Next_ok i it r)
    from run_task_outcome [OF reach Next_ok(4,6)] have fut: "func (data ! i) = Inr it"
      by simp
    from list_extend_None [OF Next_ok(7)] fut
    have "failure (func (data ! i)) = None" "r = result t @ produced (func (data ! i))"
      by (simp_all add: failure_def produced_def)
    with inv Next_ok show ?thesis by simp
  next
    case (Next_break i it r e)
    from run_task_outcome [OF reach Next_break(4,6)] have fut: "func (data ! i) = Inr it"
      by simp
    from list_extend_Some [OF Next_break(7)] fut
    have "failure (func (data ! i)) = Some e"
      by (simp add: failure_def)
    with inv Next_break show ?thesis by simp
  next
    case EndLoop
    with inv show ?thesis by simp
  next
    case (Exit out)
    with inv show ?thesis by simp
  qed
qed


lemma collect_prefix_failure:
  assumes "\<forall>j \<in> set ys. failure (futures ! j) = None"
    and "failure (futures ! i) = Some e"
  shows "collect futures (ys @ i # rest) res = Inl e"
  using assms(1)
proof (induction ys arbitrary: res)
  case Nil
  from assms(2) show ?case
    by (cases "futures ! i") (simp_all add: failure_def list_extend_eq)
next
  case (Cons j ys)
  then have "failure (futures ! j) = None" by simp
  then obtain it where "futures ! j = Inr it" "raised it = None"
    by (cases "futures ! j") (simp_all add: failure_def)
  with Cons show ?case by (simp add: list_extend_eq)
qed

lemma pool_refines_parallel:
  assumes "pool_run func as (init data) = Some s" and "pc s = Returned out"
  shows "\<exists>order. completion_order order data \<and> parallel order data func = out"
proof -
  from assms(2) have "pc s \<noteq> InBlock" by simp
  from run_left_block(2) [OF assms(1) this] have "map fst (tasks s) = data" .
  then have len: "length (tasks s) = length data" by (metis length_map)
  note y = run_yielded [OF assms(1)]
  from y have dist: "distinct (yielded s)" by simp
  from y len have bound: "set (yielded s) \<subseteq> {0..<length data}" by auto
  note J = run_collected [OF assms(1)]
  show ?thesis
  proof (cases out)
    case (Inr r)
    with J assms(2) have ok: "\<forall>i \<in> set (yielded s). failure (func (data ! i)) = None"
      and r: "r = concat (map (\<lambda>i. produced (func (data ! i))) (yielded s))"
      and all: "set [0..<length (tasks s)] \<subseteq> set (yielded s)"
      by simp_all
    from all bound len have "set (yielded s) = {0..<length data}" by auto
    with dist have co: "completion_order (yielded s) data"
      unfolding completion_order_def by (rule distinct_set_upt_mset)
    have "\<forall>d \<in> set data. failure (func d) = None"
    proof
      fix d assume "d \<in> set data"
      then obtain i where "i < length data" "data ! i = d" by (auto simp: in_set_conv_nth)
      with ok \<open>set (yielded s) = {0..<length data}\<close> show "failure (func d) = None" by auto
    qed
    from parallel_success [OF co this] r Inr have "parallel (yielded s) data func = out"
      by simp
    with co show ?thesis by blast
  next
    case (Inl e)
    with J assms(2) have ne: "yielded s \<noteq> []"
      and ok: "\<forall>i \<in> set (butlast (yielded s)). failure (func (data ! i)) = None"
      and bad: "failure (func (data ! last (yielded s))) = Some e"
      by simp_all
    let ?rest = "filter (\<lambda>i. i \<notin> set (yielded s)) [0..<length data]"
    let ?order = "yielded s @ ?rest"
    from dist have "distinct ?order" by auto
    moreover from bound have "set ?order = {0..<length data}" by auto
    ultimately have co: "completion_order ?order data"
      unfolding completion_order_def by (rule distinct_set_upt_mset)
    from ne have split: "?order = butlast (yielded s) @ last (yielded s) # ?rest"
      by simp
    from bound have inb: "\<forall>i \<in> set (yielded s). i < length data" by auto
    with ne have lastb: "last (yielded s) < length data" by simp
    from inb have "\<forall>i \<in> set (butlast (yielded s)). i < length data"
      by (auto dest: in_set_butlastD)
    with ok have ok': "\<forall>j \<in> set (butlast (yielded s)). failure (map func data ! j) = None"
      by simp
    from bad lastb have bad': "failure (map func data ! last (yielded s)) = Some e" by simp
    from collect_prefix_failure [OF ok' bad', of ?rest "[]"]
    have "parallel ?order data func = Inl e"
      unfolding parallel_def by (simp only: split)
    with co Inl show ?thesis by blast
  qed
qed


lemma submit_all:
  "pool_run func (replicate (length ds) Submit)
      \<lparr>todo = ds, tasks = ts, calls = cs, yielded = ys, result = res, pc = InBlock\<rparr>
    = Some \<lparr>todo = [], tasks = ts @ map (\<lambda>d. (d, Queued)) ds, calls = cs, yielded = ys,
        result = res, pc = InBlock\<rparr>"
  by (induction ds arbitrary: ts) simp_all

lemma update_mid: "length xs = k \<Longrightarrow> (xs @ y # ys)[k := z] = xs @ z # ys"
  by (induction xs arbitrary: k) auto

lemma nth_mid: "length xs = k \<Longrightarrow> (xs @ y # ys) ! k = y"
  by (induction xs arbitrary: k) auto

lemma work_tasks_split:
  assumes "k < length data"
  shows "map (\<lambda>d. (d, Finished (func d))) (take k data) @ map (\<lambda>d. (d, Queued)) (drop k data)
    = map (\<lambda>d. (d, Finished (func d))) (take k data) @ (data ! k, Queued) #
        map (\<lambda>d. (d, Queued)) (drop (Suc k) data)"
    and "length (map (\<lambda>d. (d, Finished (func d))) (take k data)) = k"
    and "map (\<lambda>d. (d, Finished (func d))) (take (Suc k) data)
    = map (\<lambda>d. (d, Finished (func d))) (take k data) @ [(data ! k, Finished (func (data ! k)))]"
proof -
  from assms have "drop k data = data ! k # drop (Suc k) data"
    by (simp add: Cons_nth_drop_Suc)
  then show "map (\<lambda>d. (d, Finished (func d))) (take k data) @ map (\<lambda>d. (d, Queued)) (drop k data)
    = map (\<lambda>d. (d, Finished (func d))) (take k data) @ (data ! k, Queued) #
        map (\<lambda>d. (d, Queued)) (drop (Suc k) data)"
    by simp
  from assms show "length (map (\<lambda>d. (d, Finished (func d))) (take k data)) = k"
    by simp
  from assms show "map (\<lambda>d. (d, Finished (func d))) (take (Suc k) data)
    = map (\<lambda>d. (d, Finished (func d))) (take k data) @ [(data ! k, Finished (func (data ! k)))]"
    by (simp add: take_Suc_conv_app_nth)
qed

lemma queued_not_running: "is_Queued x \<Longrightarrow> \<not> is_Running x"
  by (cases x) simp_all

lemma work_one:
  assumes "length fs = k" and "list_all (\<lambda>t. is_Finished (snd t)) fs"
    and "list_all (\<lambda>t. is_Queued (snd t)) qs"
  shows "pool_run func [Start k, Finish k]
      \<lparr>todo = [], tasks = fs @ (d, Queued) # qs, calls = cs, yielded = [], result = res,
        pc = InBlock\<rparr>
    = Some \<lparr>todo = [], tasks = fs @ (d, Finished (func d)) # qs, calls = cs @ [k], yielded = [],
        result = res, pc = InBlock\<rparr>"
proof -
  have "filter (\<lambda>t. is_Running (snd t)) fs = []"
    using assms(2) by (simp add: list_all_iff filter_empty_conv finished_not_waiting)
  moreover have "filter (\<lambda>t. is_Running (snd t)) qs = []"
    using assms(3) by (simp add: list_all_iff filter_empty_conv queued_not_running)
  ultimately have idle: "running \<lparr>todo = [], tasks = fs @ (d, Queued) # qs, calls = cs,
      yielded = [], result = res, pc = (InBlock :: ('b, 'c) caller)\<rparr> = 0"
    by (simp add: running_def)
  from assms(1) show ?thesis
    by (simp add: idle max_workers_def nth_mid update_mid)
qed

lemma work_all:
  assumes "k \<le> length data"
  shows "pool_run func (concat (map (\<lambda>i. [Start i, Finish i]) [0..<k]))
      \<lparr>todo = [], tasks = map (\<lambda>d. (d, Queued)) data, calls = [], yielded = [], result = [],
        pc = InBlock\<rparr>
    = Some \<lparr>todo = [],
        tasks = map (\<lambda>d. (d, Finished (func d))) (take k data)
          @ map (\<lambda>d. (d, Queued)) (drop k data),
        calls = [0..<k], yielded = [], result = [], pc = InBlock\<rparr>"
  using assms
proof (induction k)
  case 0
  then show ?case by simp
next
  case (Suc k)
  then have k: "k < length data" by simp
  note sp = work_tasks_split [OF k, of func]
  have one: "pool_run func [Start k, Finish k]
      \<lparr>todo = [],
        tasks = map (\<lambda>d. (d, Finished (func d))) (take k data) @ (data ! k, Queued) #
          map (\<lambda>d. (d, Queued)) (drop (Suc k) data),
        calls = [0..<k], yielded = [], result = [], pc = InBlock\<rparr>
    = Some \<lparr>todo = [],
        tasks = map (\<lambda>d. (d, Finished (func d))) (take k data) @
          (data ! k, Finished (func (data ! k))) # map (\<lambda>d. (d, Queued)) (drop (Suc k) data),
        calls = [0..<k] @ [k], yielded = [], result = [], pc = InBlock\<rparr>"
    using k by (intro work_one) (simp_all add: list_all_iff)
  from Suc.IH k have "pool_run func (concat (map (\<lambda>i. [Start i, Finish i]) [0..<k]))
      \<lparr>todo = [], tasks = map (\<lambda>d. (d, Queued)) data, calls = [], yielded = [], result = [],
        pc = InBlock\<rparr>
    = Some \<lparr>todo = [],
        tasks = map (\<lambda>d. (d, Finished (func d))) (take k data) @ (data ! k, Queued) #
          map (\<lambda>d. (d, Queued)) (drop (Suc k) data),
        calls = [0..<k], yielded = [], result = [], pc = InBlock\<rparr>"
    by (simp only: sp(1))
  with one show ?case
    by (simp add: pool_run_append sp(3))
qed


lemma pool_run_seq:
  assumes "pool_run func as s = Some t" and "pool_run func bs t = Some u"
  shows "pool_run func (as @ bs) s = Some u"
  using assms by (simp add: pool_run_append)

lemma all_submitted_and_finished:
  "pool_run func (replicate (length data) Submit
        @ concat (map (\<lambda>i. [Start i, Finish i]) [0..<length data])) (init data)
    = Some \<lparr>todo = [], tasks = map (\<lambda>d. (d, Finished (func d))) data,
        calls = [0..<length data], yielded = [], result = [], pc = InBlock\<rparr>"
proof (rule pool_run_seq)
  show "pool_run func (replicate (length data) Submit) (init data)
      = Some \<lparr>todo = [], tasks = map (\<lambda>d. (d, Queued)) data, calls = [], yielded = [],
          result = [], pc = InBlock\<rparr>"
    using submit_all [of func data "[]" "[]" "[]" "[]"] by (simp add: init_def)
  show "pool_run func (concat (map (\<lambda>i. [Start i, Finish i]) [0..<length data]))
        \<lparr>todo = [], tasks = map (\<lambda>d. (d, Queued)) data, calls = [], yielded = [],
          result = [], pc = InBlock\<rparr>
      = Some \<lparr>todo = [], tasks = map (\<lambda>d. (d, Finished (func d))) data,
          calls = [0..<length data], yielded = [], result = [], pc = InBlock\<rparr>"
    using work_all [of "length data" data func] by simp
qed

lemma next_ok_step:
  assumes "i < length data" and "i \<notin> set ys" and "failure (func (data ! i)) = None"
  shows "step func (Next i)
      \<lparr>todo = [], tasks = map (\<lambda>d. (d, Finished (func d))) data, calls = cs, yielded = ys,
        result = res, pc = InBlock\<rparr>
    = Some \<lparr>todo = [], tasks = map (\<lambda>d. (d, Finished (func d))) data, calls = cs,
        yielded = ys @ [i], result = res @ produced (func (data ! i)), pc = InBlock\<rparr>"
proof -
  from assms(3) obtain it where it: "func (data ! i) = Inr it" "raised it = None"
    by (cases "func (data ! i)") (simp_all add: failure_def)
  with assms(1,2) show ?thesis
    by (simp add: list_extend_eq produced_def)
qed

lemma next_all_ok:
  assumes "\<forall>i \<in> set zs. i < length data \<and> failure (func (data ! i)) = None"
    and "distinct zs" and "set zs \<inter> set ys = {}"
  shows "pool_run func (map Next zs)
      \<lparr>todo = [], tasks = map (\<lambda>d. (d, Finished (func d))) data, calls = cs, yielded = ys,
        result = res, pc = InBlock\<rparr>
    = Some \<lparr>todo = [], tasks = map (\<lambda>d. (d, Finished (func d))) data, calls = cs,
        yielded = ys @ zs,
        result = res @ concat (map (\<lambda>i. produced (func (data ! i))) zs), pc = InBlock\<rparr>"
  using assms
proof (induction zs arbitrary: ys res)
  case Nil
  then show ?case by simp
next
  case (Cons z zs)
  from Cons.prems have z: "z < length data" "z \<notin> set ys" "failure (func (data ! z)) = None"
    by auto
  from Cons.prems have rest: "\<forall>i \<in> set zs. i < length data \<and> failure (func (data ! i)) = None"
    "distinct zs" "set zs \<inter> set (ys @ [z]) = {}"
    by auto
  from next_ok_step [of z data ys func cs res] z
    Cons.IH [OF rest, of "res @ produced (func (data ! z))"]
  show ?case by simp
qed

lemma next_fail_step:
  assumes "i < length data" and "i \<notin> set ys" and "failure (func (data ! i)) = Some e"
  shows "\<exists>r. step func (Next i)
      \<lparr>todo = [], tasks = map (\<lambda>d. (d, Finished (func d))) data, calls = cs, yielded = ys,
        result = res, pc = InBlock\<rparr>
    = Some \<lparr>todo = [], tasks = map (\<lambda>d. (d, Finished (func d))) data, calls = cs,
        yielded = ys @ [i], result = r, pc = Leaving (Inl e)\<rparr>"
proof (cases "func (data ! i)")
  case (Inl e')
  with assms show ?thesis by (simp add: failure_def)
next
  case (Inr it)
  with assms show ?thesis by (simp add: failure_def list_extend_eq)
qed

lemma pool_realises_parallel:
  assumes "completion_order order data"
  shows "\<exists>as s. pool_run func as (init data) = Some s \<and> pc s = Returned (parallel order data func)"
proof -
  let ?ok = "\<lambda>i. failure (func (data ! i)) = None"
  let ?T = "map (\<lambda>d. (d, Finished (func d))) data"
  let ?prep = "replicate (length data) Submit
    @ concat (map (\<lambda>i. [Start i, Finish i]) [0..<length data])"
  note prep = all_submitted_and_finished [of func data]
  from assms have set_order: "set order = {0..<length data}"
    by (rule completion_order_set)
  from assms have "mset order = mset [0..<length data]"
    by (simp only: completion_order_def)
  from mset_eq_imp_distinct_iff [OF this] have dist: "distinct order"
    by simp
  show ?thesis
  proof (cases "\<forall>i \<in> set order. ?ok i")
    case True
    let ?res = "concat (map (\<lambda>i. produced (func (data ! i))) order)"
    have "\<forall>d \<in> set data. failure (func d) = None"
    proof
      fix d assume "d \<in> set data"
      then obtain i where "i < length data" "data ! i = d" by (auto simp: in_set_conv_nth)
      with True set_order show "failure (func d) = None" by auto
    qed
    from parallel_success [OF assms this] have par: "parallel order data func = Inr ?res" .
    from True set_order have ok: "\<forall>i \<in> set order. i < length data \<and> ?ok i"
      by simp
    from next_all_ok [where ys = "[]" and cs = "[0..<length data]" and res = "[]", OF ok dist]
    have loop: "pool_run func (map Next order)
        \<lparr>todo = [], tasks = ?T, calls = [0..<length data], yielded = [], result = [],
          pc = InBlock\<rparr>
      = Some \<lparr>todo = [], tasks = ?T, calls = [0..<length data], yielded = order,
          result = ?res, pc = InBlock\<rparr>"
      by simp
    have fin: "pool_run func [EndLoop, Exit]
        \<lparr>todo = [], tasks = ?T, calls = [0..<length data], yielded = order,
          result = ?res, pc = InBlock\<rparr>
      = Some \<lparr>todo = [], tasks = ?T, calls = [0..<length data], yielded = order,
          result = ?res, pc = Returned (Inr ?res)\<rparr>"
      by (simp add: set_order list_all_iff)
    have "pool_run func ((?prep @ map Next order) @ [EndLoop, Exit]) (init data)
      = Some \<lparr>todo = [], tasks = ?T, calls = [0..<length data], yielded = order,
          result = ?res, pc = Returned (Inr ?res)\<rparr>"
      by (rule pool_run_seq [OF pool_run_seq [OF prep loop] fin])
    moreover have "pc \<lparr>todo = [], tasks = ?T, calls = [0..<length data], yielded = order,
          result = ?res, pc = Returned (Inr ?res)\<rparr> = Returned (parallel order data func)"
      by (simp add: par)
    ultimately show ?thesis by blast
  next
    case False
    define ys where "ys = takeWhile ?ok order"
    from False have "dropWhile ?ok order \<noteq> []" by simp
    then obtain i rest where dw: "dropWhile ?ok order = i # rest"
      by (cases "dropWhile ?ok order") auto
    have "order = takeWhile ?ok order @ dropWhile ?ok order" by simp
    with dw have split: "order = ys @ i # rest"
      by (simp only: ys_def)
    from hd_dropWhile [of ?ok order] dw have "\<not> ?ok i" by simp
    then obtain e where bad: "failure (func (data ! i)) = Some e" by auto
    from split have "i \<in> set order" by simp
    with set_order have i: "i < length data" by simp
    from dist have "distinct (ys @ i # rest)" by (simp only: split [symmetric])
    then have fresh: "i \<notin> set ys" and ys_dist: "distinct ys" by simp_all
    have "set order = set (ys @ i # rest)" by (simp only: split [symmetric])
    then have "set ys \<subseteq> set order" by auto
    with set_order have "\<forall>j \<in> set ys. j < length data" by auto
    moreover have "\<forall>j \<in> set ys. ?ok j"
      unfolding ys_def by (auto dest: set_takeWhileD)
    ultimately have ys_ok: "\<forall>j \<in> set ys. j < length data \<and> ?ok j" by simp
    then have "\<forall>j \<in> set ys. failure (map func data ! j) = None" by simp
    moreover from bad i have "failure (map func data ! i) = Some e" by simp
    ultimately have "collect (map func data) (ys @ i # rest) [] = Inl e"
      by (rule collect_prefix_failure)
    then have par: "parallel order data func = Inl e"
      by (simp only: parallel_def split [symmetric])
    let ?res = "concat (map (\<lambda>i. produced (func (data ! i))) ys)"
    from next_all_ok [where ys = "[]" and cs = "[0..<length data]" and res = "[]",
        OF ys_ok ys_dist]
    have loop: "pool_run func (map Next ys)
        \<lparr>todo = [], tasks = ?T, calls = [0..<length data], yielded = [], result = [],
          pc = InBlock\<rparr>
      = Some \<lparr>todo = [], tasks = ?T, calls = [0..<length data], yielded = ys,
          result = ?res, pc = InBlock\<rparr>"
      by simp
    from next_fail_step [of i data ys func e "[0..<length data]" ?res] i fresh bad
    obtain r where "step func (Next i)
        \<lparr>todo = [], tasks = ?T, calls = [0..<length data], yielded = ys,
          result = ?res, pc = InBlock\<rparr>
      = Some \<lparr>todo = [], tasks = ?T, calls = [0..<length data], yielded = ys @ [i],
          result = r, pc = Leaving (Inl e)\<rparr>"
      by blast
    then have fin: "pool_run func [Next i, Exit]
        \<lparr>todo = [], tasks = ?T, calls = [0..<length data], yielded = ys,
          result = ?res, pc = InBlock\<rparr>
      = Some \<lparr>todo = [], tasks = ?T, calls = [0..<length data], yielded = ys @ [i],
          result = r, pc = Returned (Inl e)\<rparr>"
      by (simp add: list_all_iff)
    have "pool_run func ((?prep @ map Next ys) @ [Next i, Exit]) (init data)
      = Some \<lparr>todo = [], tasks = ?T, calls = [0..<length data], yielded = ys @ [i],
          result = r, pc = Returned (Inl e)\<rparr>"
      by (rule pool_run_seq [OF pool_run_seq [OF prep loop] fin])
    moreover have "pc \<lparr>todo = [], tasks = ?T, calls = [0..<length data], yielded = ys @ [i],
          result = r, pc = Returned (Inl e)\<rparr> = Returned (parallel order data func)"
      by (simp add: par)
    ultimately show ?thesis by blast
  qed
qed

text \<open>
  Claim C4. In a successful result the items of one identifier form one contiguous
  block, in the order in which the mapping function yielded them, and the blocks stand
  in the order in which the futures completed: the result is the concatenation of the
  per-identifier outputs taken along a permutation of the identifiers' positions.
  Nothing more is fixed about the order of the blocks: every such permutation is the
  completion order of some run of the worker pool, which returns that very list.
\<close>

theorem parallel_blocks_in_completion_order:
  assumes "completion_order order data"
    and "parallel order data func = Inr res"
  shows "res = concat (map (\<lambda>i. produced (func (data ! i))) order)
       \<and> mset order = mset [0..<length data]
       \<and> (\<exists>as s. pool_run func as (init data) = Some s \<and> pc s = Returned (Inr res))"
proof -
  from parallel_Inr_no_failure [OF assms]
  have "\<forall>d \<in> set data. failure (func d) = None" .
  from parallel_success [where func = func, OF assms(1) this] assms
  have "res = concat (map (\<lambda>i. produced (func (data ! i))) order)
      \<and> mset order = mset [0..<length data]"
    by (simp add: completion_order_def)
  moreover from pool_realises_parallel [OF assms(1), of func] assms(2)
  have "\<exists>as s. pool_run func as (init data) = Some s \<and> pc s = Returned (Inr res)"
    by simp
  ultimately show ?thesis by simp
qed

theorem parallel_blocks_in_completion_order_witness:
  "completion_order [1, 2, 0] [''a'', ''b'', ''c'']
   \<and> parallel [1, 2, 0] [''a'', ''b'', ''c''] two_items
       = Inr [''b1'', ''b2'', ''c1'', ''c2'', ''a1'', ''a2'']
   \<and> [''b1'', ''b2'', ''c1'', ''c2'', ''a1'', ''a2'']
       = concat (map (\<lambda>i. produced (two_items ([''a'', ''b'', ''c''] ! i))) [1, 2, 0])"
proof -
  have order: "completion_order [1, 2, 0] [''a'', ''b'', ''c'']"
    by (simp add: completion_order_def upt_rec)
  have run: "parallel [1, 2, 0] [''a'', ''b'', ''c''] two_items
      = Inr [''b1'', ''b2'', ''c1'', ''c2'', ''a1'', ''a2'']"
    by (simp add: parallel_def two_items_def)
  from parallel_blocks_in_completion_order [OF order run] order run show ?thesis
    by simp
qed

section \<open>Properties of the installer\<close>

lemma check_call_Inr:
  assumes "check_call e c w = Inr w'"
  shows "w' = w\<lparr>links := effect e c (links w), commands := commands w @ [c]\<rparr>"
  using assms by (simp add: check_call_def split: if_splits)

lemma install_one_commands:
  assumes "install_one e home impl version w = Inr w'"
  shows "commands w' = commands w @
    [Uv_python_install (impl @ ''-'' @ version),
     Ln_s_f (interpreter home impl version) (link_name home impl version)]"
proof -
  from assms obtain w1 where
    a: "check_call e (Uv_python_install (impl @ ''-'' @ version)) w = Inr w1" and
    b: "check_call e (Ln_s_f (interpreter home impl version) (link_name home impl version)) w1 = Inr w'"
    by (auto simp: install_one_def split: sum.splits)
  from check_call_Inr [OF a] check_call_Inr [OF b] show ?thesis by simp
qed

lemma install_versions_commands:
  assumes "install_versions e home impl versions w = Inr w'"
  shows "commands w' = commands w @ concat (map (\<lambda>version.
    [Uv_python_install (impl @ ''-'' @ version),
     Ln_s_f (interpreter home impl version) (link_name home impl version)]) versions)"
  using assms
proof (induction versions arbitrary: w)
  case Nil
  then show ?case by simp
next
  case (Cons v vs)
  then obtain w1 where a: "install_one e home impl v w = Inr w1"
    and b: "install_versions e home impl vs w1 = Inr w'"
    by (auto split: sum.splits)
  from install_one_commands [OF a] Cons.IH [OF b] show ?case by simp
qed

lemma install_all_commands:
  assumes "install_all e home table w = Inr w'"
  shows "commands w' = commands w @ concat (map (\<lambda>(impl, versions). concat (map (\<lambda>version.
    [Uv_python_install (impl @ ''-'' @ version),
     Ln_s_f (interpreter home impl version) (link_name home impl version)]) versions)) table)"
  using assms
proof (induction table arbitrary: w)
  case Nil
  then show ?case by simp
next
  case (Cons entry rest)
  obtain impl versions where entry: "entry = (impl, versions)" by (cases entry)
  with Cons.prems obtain w1 where a: "install_versions e home impl versions w = Inr w1"
    and b: "install_all e home rest w1 = Inr w'"
    by (auto split: sum.splits)
  from install_versions_commands [OF a] Cons.IH [OF b] entry show ?case by simp
qed

lemma installer_run_Inr:
  assumes "installer_run e home w = Inr w'"
  obtains w1 where "install_all e home py w = Inr w1"
    and "check_call e (Ln_s_f (interpreter home ''cpython'' ''3.13.2'') (dest_dir home @ [''python''])) w1 = Inr w'"
  using assms by (auto simp: installer_run_def py_def split: sum.splits)


lemma py_cpython:
  "map_of py ''cpython'' = Some [''3.8.20'', ''3.9.21'', ''3.10.16'', ''3.11.11'', ''3.12.9'', ''3.13.2'']"
  by (simp add: py_def)

lemma interpreter_final:
  "interpreter home ''cpython'' ''3.13.2''
    = src_dir home @ [''cpython-3.13.2-macos-aarch64-none'', ''bin'', ''python'']"
  by (simp add: interpreter_def)

lemma loop_links_named:
  assumes "install_all e home py w = Inr w1"
  shows "length (commands w1) = length (commands w) + 18"
    and "\<forall>c \<in> set (drop (length (commands w)) (commands w1)).
      \<forall>target. c \<noteq> Ln_s_f target (dest_dir home @ [''python''])"
proof -
  note cs = install_all_commands [OF assms]
  show "length (commands w1) = length (commands w) + 18"
    unfolding cs by (simp add: py_def)
  show "\<forall>c \<in> set (drop (length (commands w)) (commands w1)).
      \<forall>target. c \<noteq> Ln_s_f target (dest_dir home @ [''python''])"
    unfolding cs by (simp add: py_def link_name_def minor_of_def)
qed

text \<open>
  Claim C10. When the installer's \<open>run\<close> completes, it has carried out nineteen commands,
  the last of which links \<^verbatim>\<open>~/.local/bin/python\<close> to the interpreter of \<^verbatim>\<open>cpython-3.13.2\<close>, and
  that is where the link points in the end, whatever \<^verbatim>\<open>uv\<close> did to the links on the way. No
  command of the loops makes a link of that name. \<^verbatim>\<open>3.13.2\<close> is the last entry of the CPython
  list and no entry of the list is a later version.
\<close>

theorem python_link_made_last_to_final_cpython:
  assumes "installer_run e home w = Inr w'"
  shows "length (commands w') = length (commands w) + 19
       \<and> last (commands w')
           = Ln_s_f (src_dir home @ [''cpython-3.13.2-macos-aarch64-none'', ''bin'', ''python''])
               (dest_dir home @ [''python''])
       \<and> links w' (dest_dir home @ [''python''])
           = Some (src_dir home @ [''cpython-3.13.2-macos-aarch64-none'', ''bin'', ''python''])
       \<and> (\<forall>c \<in> set (butlast (drop (length (commands w)) (commands w'))).
            \<forall>target. c \<noteq> Ln_s_f target (dest_dir home @ [''python'']))
       \<and> (\<forall>versions. map_of py ''cpython'' = Some versions \<longrightarrow>
            last versions = ''3.13.2''
            \<and> (\<forall>v \<in> set versions. version_numbers v \<le> version_numbers ''3.13.2''))"
proof -
  from assms obtain w1 where
    loops: "install_all e home py w = Inr w1" and
    final: "check_call e
      (Ln_s_f (interpreter home ''cpython'' ''3.13.2'') (dest_dir home @ [''python''])) w1 = Inr w'"
    by (rule installer_run_Inr)
  note w' = check_call_Inr [OF final]
  from w' have cs: "commands w' = commands w1 @
      [Ln_s_f (src_dir home @ [''cpython-3.13.2-macos-aarch64-none'', ''bin'', ''python''])
        (dest_dir home @ [''python''])]"
    by (simp add: interpreter_final)
  from loop_links_named(1) [OF loops] cs
  have n: "length (commands w') = length (commands w) + 19" by simp
  from cs have l: "last (commands w')
      = Ln_s_f (src_dir home @ [''cpython-3.13.2-macos-aarch64-none'', ''bin'', ''python''])
          (dest_dir home @ [''python''])"
    by simp
  from w' have t: "links w' (dest_dir home @ [''python''])
      = Some (src_dir home @ [''cpython-3.13.2-macos-aarch64-none'', ''bin'', ''python''])"
    by (simp add: interpreter_final)
  from loop_links_named(1) [OF loops]
  have "butlast (drop (length (commands w)) (commands w')) = drop (length (commands w)) (commands w1)"
    unfolding cs by (simp add: butlast_append)
  with loop_links_named(2) [OF loops]
  have b: "\<forall>c \<in> set (butlast (drop (length (commands w)) (commands w'))).
      \<forall>target. c \<noteq> Ln_s_f target (dest_dir home @ [''python''])"
    by simp
  have "last [''3.8.20'', ''3.9.21'', ''3.10.16'', ''3.11.11'', ''3.12.9'', ''3.13.2''] = ''3.13.2''"
    by simp
  moreover have "\<forall>v \<in> set [''3.8.20'', ''3.9.21'', ''3.10.16'', ''3.11.11'', ''3.12.9'', ''3.13.2''].
      version_numbers v \<le> version_numbers ''3.13.2''"
    by code_simp
  ultimately have v: "\<forall>versions. map_of py ''cpython'' = Some versions \<longrightarrow>
      last versions = ''3.13.2''
      \<and> (\<forall>v \<in> set versions. version_numbers v \<le> version_numbers ''3.13.2'')"
    unfolding py_cpython by blast
  from n l t b v show ?thesis by (intro conjI)
qed

theorem python_link_made_last_to_final_cpython_witness:
  "(\<exists>w'. installer_run all_fine [''Users'', ''me''] empty_world = Inr w'
      \<and> length (commands w') = 19
      \<and> links w' [''Users'', ''me'', ''.local'', ''bin'', ''python'']
          = Some [''Users'', ''me'', ''Library'', ''Application Support'', ''uv'', ''python'',
              ''cpython-3.13.2-macos-aarch64-none'', ''bin'', ''python''])"
proof -
  have "case installer_run all_fine [''Users'', ''me''] empty_world of
      Inl err \<Rightarrow> False | Inr w' \<Rightarrow> True"
    by code_simp
  then obtain w' where r: "installer_run all_fine [''Users'', ''me''] empty_world = Inr w'"
    by (auto split: sum.splits)
  from python_link_made_last_to_final_cpython [OF r] r show ?thesis
    by (simp add: empty_world_def dest_dir_def src_dir_def Path_def)
qed

section \<open>Properties of the \<^verbatim>\<open>pr\<close> command\<close>

lemma sorted_reverse_mset: "mset (sorted_reverse key xs) = mset xs"
  by (simp add: sorted_reverse_def)

lemma sorted_reverse_descending: "sorted (rev (map key (sorted_reverse key xs)))"
  by (simp add: sorted_reverse_def rev_map [symmetric])

lemma sorted_reverse_stable:
  "filter (\<lambda>x. key x = k) (sorted_reverse key xs) = filter (\<lambda>x. key x = k) xs"
proof -
  have "filter (\<lambda>x. key x = k) (sorted_reverse key xs)
      = rev (filter (\<lambda>x. key x = k) (sort_key key (rev xs)))"
    by (simp add: sorted_reverse_def rev_filter)
  also have "\<dots> = rev (filter (\<lambda>x. key x = k) (rev xs))"
    by (simp only: sort_key_stable)
  also have "\<dots> = filter (\<lambda>x. key x = k) xs"
    by (simp add: rev_filter)
  finally show ?thesis .
qed

lemma sorted_reverse_cong:
  assumes m: "mset xs = mset ys"
    and f: "\<And>k. filter (\<lambda>x. key x = k) xs = filter (\<lambda>x. key x = k) ys"
  shows "sorted_reverse key xs = sorted_reverse key ys"
proof -
  have "sort_key key (rev xs) = sort_key key (rev ys)"
  proof (rule properties_for_sort_key)
    show "mset (sort_key key (rev ys)) = mset (rev xs)"
      using m by simp
    show "sorted (map key (sort_key key (rev ys)))"
      by simp
  next
    fix k
    have "filter (\<lambda>x. key k = key x) (sort_key key (rev ys))
        = filter (\<lambda>x. key x = key k) (sort_key key (rev ys))"
      by (rule filter_cong) auto
    also have "\<dots> = filter (\<lambda>x. key x = key k) (rev ys)"
      by (rule sort_key_stable)
    also have "\<dots> = rev (filter (\<lambda>x. key x = key k) ys)"
      by (simp add: rev_filter)
    also have "\<dots> = rev (filter (\<lambda>x. key x = key k) xs)"
      by (simp only: f)
    also have "\<dots> = filter (\<lambda>x. key x = key k) (rev xs)"
      by (simp add: rev_filter)
    also have "\<dots> = filter (\<lambda>x. key k = key x) (rev xs)"
      by (rule filter_cong) auto
    finally show "filter (\<lambda>x. key k = key x) (sort_key key (rev ys))
        = filter (\<lambda>x. key k = key x) (rev xs)" .
  qed
  then show ?thesis by (simp add: sorted_reverse_def)
qed

lemma concat_two_valued:
  assumes "\<forall>i \<in> set is. B i = [] \<or> B i = C"
  shows "concat (map B is) = concat (replicate (length (filter (\<lambda>i. B i \<noteq> []) is)) C)"
  using assms by (induction "is") auto

lemma length_filter_mset:
  assumes "mset xs = mset ys"
  shows "length (filter Q xs) = length (filter Q ys)"
proof -
  from assms have "mset (filter Q xs) = mset (filter Q ys)"
    by (simp only: mset_filter)
  then show ?thesis by (rule mset_eq_length)
qed

lemma concat_blocks_permuted:
  assumes "mset is = mset js" and "\<forall>i. B i = [] \<or> B i = C"
  shows "concat (map B is) = concat (map B js)"
proof -
  from assms(2) have "\<forall>i \<in> set is. B i = [] \<or> B i = C" "\<forall>i \<in> set js. B i = [] \<or> B i = C"
    by simp_all
  then show ?thesis
    by (simp only: concat_two_valued length_filter_mset [OF assms(1)])
qed


lemma items_paired: "items (paired repo it) = map (Pair repo) (items it)"
  by (induction it) simp_all

lemma produced_get_pulls_for:
  "produced (get_pulls_for a name) =
    (case get_repo a name of
       Inl err \<Rightarrow> []
     | Inr repo \<Rightarrow> map (Pair repo) (items (get_pulls a repo)))"
  by (simp add: produced_def get_pulls_for_def items_paired split: sum.splits)

lemma block_for_key:
  "\<exists>C. \<forall>name.
      filter (\<lambda>d. sort_key_of d = (l, n, u)) (produced (get_pulls_for a name)) = []
    \<or> filter (\<lambda>d. sort_key_of d = (l, n, u)) (produced (get_pulls_for a name)) = C"
proof (intro exI allI)
  fix name
  let ?R = "\<lparr>owner_login = l, repo_name = n\<rparr>"
  let ?C = "filter (\<lambda>d. sort_key_of d = (l, n, u)) (map (Pair ?R) (items (get_pulls a ?R)))"
  show "filter (\<lambda>d. sort_key_of d = (l, n, u)) (produced (get_pulls_for a name)) = []
      \<or> filter (\<lambda>d. sort_key_of d = (l, n, u)) (produced (get_pulls_for a name)) = ?C"
  proof (cases "get_repo a name")
    case (Inl err)
    then show ?thesis by (simp add: produced_get_pulls_for)
  next
    case (Inr repo)
    show ?thesis
    proof (cases "repo = ?R")
      case True
      with Inr show ?thesis by (simp add: produced_get_pulls_for)
    next
      case False
      then have "owner_login repo \<noteq> l \<or> repo_name repo \<noteq> n"
        by (cases repo) auto
      then have "filter (\<lambda>d. sort_key_of d = (l, n, u))
          (map (Pair repo) (items (get_pulls a repo))) = []"
        by (auto simp: filter_empty_conv sort_key_of_def)
      with Inr show ?thesis by (simp add: produced_get_pulls_for)
    qed
  qed
qed

lemma fetch_order_irrelevant_for_key:
  assumes "completion_order is names" and "completion_order js names"
  shows "filter (\<lambda>d. sort_key_of d = k)
        (concat (map (\<lambda>i. produced (get_pulls_for a (names ! i))) is))
    = filter (\<lambda>d. sort_key_of d = k)
        (concat (map (\<lambda>i. produced (get_pulls_for a (names ! i))) js))"
proof -
  obtain l n u where k: "k = (l, n, u)" by (cases k)
  let ?B = "\<lambda>i. filter (\<lambda>d. sort_key_of d = (l, n, u)) (produced (get_pulls_for a (names ! i)))"
  from assms have m: "mset is = mset js" by (simp add: completion_order_def)
  from block_for_key [of l n u a] obtain C where
    C: "\<forall>name. filter (\<lambda>d. sort_key_of d = (l, n, u)) (produced (get_pulls_for a name)) = []
      \<or> filter (\<lambda>d. sort_key_of d = (l, n, u)) (produced (get_pulls_for a name)) = C"
    by (rule exE)
  have "\<forall>i. ?B i = [] \<or> ?B i = C"
  proof
    fix i
    from C show "?B i = [] \<or> ?B i = C" by (rule spec)
  qed
  from concat_blocks_permuted [OF m this] show ?thesis
    by (simp add: filter_concat comp_def k)
qed


lemma commonprefix_mset:
  assumes "mset m = mset m'"
  shows "commonprefix m = commonprefix m'"
proof (cases m)
  case Nil
  with assms have "m' = []" by simp
  with Nil show ?thesis by simp
next
  case (Cons x xs)
  with assms obtain y ys where m': "m' = y # ys" by (cases m') auto
  from assms have "set m = set m'" by (rule mset_eq_setD)
  with Cons m' have s: "set (x # xs) = set (y # ys)" by simp
  have "fold min xs x = Min (set (x # xs))" "fold max xs x = Max (set (x # xs))"
    by (simp_all only: Min.set_eq_fold Max.set_eq_fold)
  moreover have "fold min ys y = Min (set (y # ys))" "fold max ys y = Max (set (y # ys))"
    by (simp_all only: Min.set_eq_fold Max.set_eq_fold)
  ultimately have "fold min xs x = fold min ys y" "fold max xs x = fold max ys y"
    by (simp_all only: s)
  then show ?thesis
    by (simp add: commonprefix_def Cons m')
qed

lemma common_walk_le:
  "s1 \<le> s2 \<Longrightarrow> \<exists>p. common_walk s1 s2 = Inr p"
proof (induction s1 s2 rule: common_walk.induct)
  case (1 s2)
  then show ?case by simp
next
  case (2 c s1)
  then show ?case by simp
next
  case (3 c s1 c' s2)
  show ?case
  proof (cases "c = c'")
    case True
    with "3.prems" have "s1 \<le> s2" by simp
    with "3.IH" True obtain p where "common_walk s1 s2 = Inr p" by auto
    with True show ?thesis by simp
  next
    case False
    then show ?thesis by simp
  qed
qed

lemma commonprefix_total: "\<exists>prefix. commonprefix m = Inr prefix"
proof (cases m)
  case Nil
  then show ?thesis by (simp add: commonprefix_def)
next
  case (Cons x xs)
  have "fold min xs x = Min (set (x # xs))" "fold max xs x = Max (set (x # xs))"
    by (simp_all only: Min.set_eq_fold Max.set_eq_fold)
  moreover have "Min (set (x # xs)) \<le> Max (set (x # xs))"
    by (rule Min_le) (simp_all only: Max_in List.finite_set set_empty list.distinct not_False_eq_True)
  ultimately have "fold min xs x \<le> fold max xs x" by simp
  from common_walk_le [OF this] Cons show ?thesis
    by (simp add: commonprefix_def)
qed

lemma add_rows_rows:
  assumes "add_rows e opts_open prefix ds (t, w) = Inr (t', w')"
  shows "rows t' = rows t @ map (row_of prefix) ds"
  using assms
proof (induction ds arbitrary: t w)
  case Nil
  then show ?case by simp
next
  case (Cons d ds)
  from Cons.prems obtain w1 where
    "add_rows e opts_open prefix ds (t\<lparr>rows := rows t @ [row_of prefix d]\<rparr>, w1) = Inr (t', w')"
    by (auto split: sum.splits if_splits)
  from Cons.IH [OF this] show ?case by simp
qed

lemma add_rows_without_open:
  "\<exists>t'. add_rows e False prefix ds (t, w) = Inr (t', w)"
  by (induction ds arbitrary: t) simp_all


lemma open_prs_blocks:
  assumes "completion_order order names" and "open_prs order a names = Inr prs"
  shows "prs = concat (map (\<lambda>i. produced (get_pulls_for a (names ! i))) order)"
proof -
  from assms(2) have ret: "parallel order names (get_pulls_for a) = Inr prs"
    by (simp add: open_prs_def)
  from parallel_Inr_no_failure [OF assms(1) ret]
  have "\<forall>d \<in> set names. failure (get_pulls_for a d) = None" .
  from parallel_success [where func = "get_pulls_for a", OF assms(1) this] ret
  show ?thesis by simp
qed

lemma OpenPRs_run_cong:
  assumes "mset prs = mset prs'"
    and "\<And>k. filter (\<lambda>d. sort_key_of d = k) prs = filter (\<lambda>d. sort_key_of d = k) prs'"
  shows "OpenPRs_run e opts_open prs w = OpenPRs_run e opts_open prs' w"
proof -
  from assms(1) have "mset (map (\<lambda>d. updated_at (snd d)) prs) = mset (map (\<lambda>d. updated_at (snd d)) prs')"
    by (metis mset_map)
  then have p: "commonprefix (map (\<lambda>d. updated_at (snd d)) prs)
      = commonprefix (map (\<lambda>d. updated_at (snd d)) prs')"
    by (rule commonprefix_mset)
  have q: "sorted_reverse sort_key_of prs = sorted_reverse sort_key_of prs'"
    using assms by (rule sorted_reverse_cong)
  show ?thesis unfolding OpenPRs_run_def by (simp only: p q)
qed

lemma OpenPRs_run_rows:
  assumes "OpenPRs_run e opts_open prs w = Inr (t, w')"
  shows "\<exists>prefix. commonprefix (map (\<lambda>d. updated_at (snd d)) prs) = Inr prefix
    \<and> rows t = map (row_of prefix) (sorted_reverse sort_key_of prs)"
proof -
  from commonprefix_total obtain prefix where
    p: "commonprefix (map (\<lambda>d. updated_at (snd d)) prs) = Inr prefix" by blast
  with assms have "add_rows e opts_open prefix (sorted_reverse sort_key_of prs)
      (\<lparr>table_title = ''Pull requests @ '' @ prefix,
        columns = [Plain ''Date'', Plain ''Org'', Plain ''Repo'', Centered ''Title''],
        rows = []\<rparr>, w) = Inr (t, w')"
    by (simp add: OpenPRs_run_def)
  from add_rows_rows [OF this] p show ?thesis by simp
qed

lemma OpenPRs_run_without_open: "\<exists>t. OpenPRs_run e False prs w = Inr (t, w)"
proof -
  from commonprefix_total obtain prefix where
    "commonprefix (map (\<lambda>d. updated_at (snd d)) prs) = Inr prefix" by blast
  with add_rows_without_open show ?thesis
    by (simp add: OpenPRs_run_def)
qed

text \<open>
  Claim C9. The rows of the table are those of the pull requests sorted by the key
  (owner login, repository name, \<^verbatim>\<open>updated_at\<close> in ISO form) in descending order; pull
  requests with equal keys keep the order in which the fetch returned them. Pull
  requests with equal keys belong to the same repository, whose pull requests come in
  one block in the order the API gives them, so for given repository names and a given
  API the sorted list, the table and the pages opened are the same for every order in
  which the futures of the parallel fetch complete. Without \<^verbatim>\<open>--open\<close> the command always
  produces its table.
\<close>

theorem pr_rows_descending_and_independent_of_completion_order:
  assumes "completion_order order names" and "completion_order order' names"
    and "open_prs order a names = Inr prs" and "open_prs order' a names = Inr prs'"
  shows "sorted (rev (map sort_key_of (sorted_reverse sort_key_of prs)))
       \<and> mset (sorted_reverse sort_key_of prs) = mset prs
       \<and> (\<forall>t w'. OpenPRs_run e opts_open prs w = Inr (t, w') \<longrightarrow>
            (\<exists>prefix. commonprefix (map (\<lambda>d. updated_at (snd d)) prs) = Inr prefix
              \<and> rows t = map (row_of prefix) (sorted_reverse sort_key_of prs)))
       \<and> (\<exists>t. OpenPRs_run e False prs w = Inr (t, w))
       \<and> (\<forall>k. filter (\<lambda>d. sort_key_of d = k) (sorted_reverse sort_key_of prs)
            = filter (\<lambda>d. sort_key_of d = k) prs)
       \<and> sorted_reverse sort_key_of prs = sorted_reverse sort_key_of prs'
       \<and> OpenPRs_run e opts_open prs w = OpenPRs_run e opts_open prs' w"
proof -
  note b = open_prs_blocks [OF assms(1,3)] and b' = open_prs_blocks [OF assms(2,4)]
  have m: "mset prs = mset prs'"
    unfolding b b'
    using concat_by_completion_order(1) [OF assms(1), of "\<lambda>d. produced (get_pulls_for a d)"]
      concat_by_completion_order(1) [OF assms(2), of "\<lambda>d. produced (get_pulls_for a d)"]
    by simp
  have f: "filter (\<lambda>d. sort_key_of d = k) prs = filter (\<lambda>d. sort_key_of d = k) prs'" for k
    unfolding b b' by (rule fetch_order_irrelevant_for_key [OF assms(1,2)])
  have stab: "\<forall>k. filter (\<lambda>d. sort_key_of d = k) (sorted_reverse sort_key_of prs)
      = filter (\<lambda>d. sort_key_of d = k) prs"
    by (simp only: sorted_reverse_stable simp_thms)
  have "sorted_reverse sort_key_of prs = sorted_reverse sort_key_of prs'"
    using m f by (rule sorted_reverse_cong)
  moreover have "OpenPRs_run e opts_open prs w = OpenPRs_run e opts_open prs' w"
    using m f by (rule OpenPRs_run_cong)
  moreover have "\<forall>t w'. OpenPRs_run e opts_open prs w = Inr (t, w') \<longrightarrow>
      (\<exists>prefix. commonprefix (map (\<lambda>d. updated_at (snd d)) prs) = Inr prefix
        \<and> rows t = map (row_of prefix) (sorted_reverse sort_key_of prs))"
    using OpenPRs_run_rows by blast
  ultimately show ?thesis
    using sorted_reverse_descending [of sort_key_of prs] sorted_reverse_mset [of sort_key_of prs]
      OpenPRs_run_without_open [of e prs w] stab
    by (intro conjI)
qed


theorem pr_rows_descending_and_independent_of_completion_order_witness:
  "completion_order [0, 1] [''tox-dev/tox'', ''pypa/virtualenv'']
   \<and> completion_order [1, 0] [''tox-dev/tox'', ''pypa/virtualenv'']
   \<and> open_prs [0, 1] example_api [''tox-dev/tox'', ''pypa/virtualenv'']
       = Inr (projr (open_prs [0, 1] example_api [''tox-dev/tox'', ''pypa/virtualenv'']))
   \<and> open_prs [1, 0] example_api [''tox-dev/tox'', ''pypa/virtualenv'']
       = Inr (projr (open_prs [1, 0] example_api [''tox-dev/tox'', ''pypa/virtualenv'']))
   \<and> map (\<lambda>d. html_url (snd d))
         (projr (open_prs [0, 1] example_api [''tox-dev/tox'', ''pypa/virtualenv'']))
       = [''https://github.com/tox-dev/tox/pull/2'', ''https://github.com/tox-dev/tox/pull/1'',
          ''https://github.com/pypa/virtualenv/pull/7'']
   \<and> map (\<lambda>d. html_url (snd d))
         (projr (open_prs [1, 0] example_api [''tox-dev/tox'', ''pypa/virtualenv'']))
       = [''https://github.com/pypa/virtualenv/pull/7'', ''https://github.com/tox-dev/tox/pull/2'',
          ''https://github.com/tox-dev/tox/pull/1'']
   \<and> map (\<lambda>d. html_url (snd d)) (sorted_reverse sort_key_of
         (projr (open_prs [1, 0] example_api [''tox-dev/tox'', ''pypa/virtualenv''])))
       = [''https://github.com/tox-dev/tox/pull/2'', ''https://github.com/tox-dev/tox/pull/1'',
          ''https://github.com/pypa/virtualenv/pull/7'']
   \<and> OpenPRs_run all_fine True
         (projr (open_prs [0, 1] example_api [''tox-dev/tox'', ''pypa/virtualenv''])) empty_world
       = OpenPRs_run all_fine True
         (projr (open_prs [1, 0] example_api [''tox-dev/tox'', ''pypa/virtualenv''])) empty_world"
proof -
  have o1: "completion_order [0, 1] [''tox-dev/tox'', ''pypa/virtualenv'']"
    and o2: "completion_order [1, 0] [''tox-dev/tox'', ''pypa/virtualenv'']"
    by (simp_all add: completion_order_def upt_rec)
  have r1: "open_prs [0, 1] example_api [''tox-dev/tox'', ''pypa/virtualenv'']
      = Inr (projr (open_prs [0, 1] example_api [''tox-dev/tox'', ''pypa/virtualenv'']))"
    by code_simp
  have r2: "open_prs [1, 0] example_api [''tox-dev/tox'', ''pypa/virtualenv'']
      = Inr (projr (open_prs [1, 0] example_api [''tox-dev/tox'', ''pypa/virtualenv'']))"
    by code_simp
  have u1: "map (\<lambda>d. html_url (snd d))
        (projr (open_prs [0, 1] example_api [''tox-dev/tox'', ''pypa/virtualenv'']))
      = [''https://github.com/tox-dev/tox/pull/2'', ''https://github.com/tox-dev/tox/pull/1'',
         ''https://github.com/pypa/virtualenv/pull/7'']"
    by code_simp
  have u2: "map (\<lambda>d. html_url (snd d))
        (projr (open_prs [1, 0] example_api [''tox-dev/tox'', ''pypa/virtualenv'']))
      = [''https://github.com/pypa/virtualenv/pull/7'', ''https://github.com/tox-dev/tox/pull/2'',
         ''https://github.com/tox-dev/tox/pull/1'']"
    by code_simp
  have u3: "map (\<lambda>d. html_url (snd d)) (sorted_reverse sort_key_of
        (projr (open_prs [1, 0] example_api [''tox-dev/tox'', ''pypa/virtualenv''])))
      = [''https://github.com/tox-dev/tox/pull/2'', ''https://github.com/tox-dev/tox/pull/1'',
         ''https://github.com/pypa/virtualenv/pull/7'']"
    by code_simp
  from pr_rows_descending_and_independent_of_completion_order
    [OF o1 o2 r1 r2, of all_fine True empty_world]
  have "OpenPRs_run all_fine True
        (projr (open_prs [0, 1] example_api [''tox-dev/tox'', ''pypa/virtualenv''])) empty_world
      = OpenPRs_run all_fine True
        (projr (open_prs [1, 0] example_api [''tox-dev/tox'', ''pypa/virtualenv''])) empty_world"
    by blast
  with o1 o2 r1 r2 u1 u2 u3 show ?thesis by (intro conjI)
qed

end
